theory Spec2Isabelle
  imports Main "HOL-Library.Word" "HOL-Library.Signed_Division"
begin

unbundle bit_operations_syntax

section \<open>Data model of acph.c\<close>

text \<open>
  A \<open>uint8_t\<close> is an 8-bit word. A \<open>BinaryValue\<close> is a pointer with an explicit
  length: \<open>binary\<close> is the list of the \<open>length\<close> bytes of the key, so the field
  \<open>length\<close> of the struct is the length of that list, and \<open>beyond\<close> is the list of the
  bytes that can be read at the pointer after them (the terminating NUL and whatever
  follows it in the same object for the keys of \<open>create_string_hash\<close>, nothing for a
  buffer of exactly \<open>length\<close> bytes). Reading \<open>binary[i]\<close> gives byte \<open>i\<close> of the two
  lists in a row; beyond both it leaves the object.

  A \<open>Payload\<close> is an 8-byte union that the library never interprets: it is modelled by
  its 64-bit image. A \<open>size_t\<close> counts elements of an object in memory and never wraps:
  it is a natural number. An \<open>int\<close> that the code increments from 0 is a natural
  number that must not pass \<open>INT_MAX\<close>: signed overflow is undefined in C, and the
  model stops there with a fault.
\<close>

type_synonym byte = "8 word"
type_synonym Payload = "64 word"

datatype BinaryValue = BinaryValue (binary: "byte list") (beyond: "byte list")

definition INT_MAX :: int where
  "INT_MAX = 2147483647"

text \<open>
  \<open>struct HashNode\<close> and \<open>struct HashSlot\<close>. The union \<open>next_node\<close> holds a null
  pointer, a pointer to a child node, or a pointer to the stored \<open>BinaryValue\<close>; the
  code tells them apart by \<open>count\<close> only (0: empty, 1: leaf, more: child).
\<close>

datatype HashNode =
  HashNode (node_column: nat) (node_prime: byte) (node_num_slots: byte) (node_slot: "HashSlot list")
  and HashSlot =
  HashSlot (slot_character: byte) (slot_count: nat) (slot_next_node: NextNode) (slot_payload: Payload)
  and NextNode = NullPtr | Child HashNode | Binary BinaryValue

text \<open>\<open>struct SLOT\<close>, the work entry of \<open>find_best_hash\<close>.\<close>

datatype SLOT = SLOT (s_character: byte) (s_count: nat)

text \<open>
  What the code can do besides returning: read beyond the bytes readable at a key's
  pointer or write beyond an allocated array (\<open>OutOfBounds\<close>), read a stack array
  that was never written or follow a null pointer (\<open>InvalidRead\<close>), increment an
  \<open>int\<close> that holds \<open>INT_MAX\<close> (\<open>SignedOverflow\<close>), or stop with
  \<open>PANIC: Binary not found\<close>. Allocation failure (the other \<open>exit(1)\<close>) is not
  modelled: \<open>malloc\<close> succeeds.
\<close>

datatype fault = OutOfBounds | InvalidRead | SignedOverflow | BinaryNotFound

text \<open>\<open>values[j].binary[i]\<close>, read with no test against \<open>length\<close>.\<close>

definition read_byte :: "BinaryValue \<Rightarrow> nat \<Rightarrow> fault + byte" where
  "read_byte v i =
     (if i < length (binary v @ beyond v) then Inr ((binary v @ beyond v) ! i)
      else Inl OutOfBounds)"

section \<open>hash_function\<close>

text \<open>
  The operands are promoted to \<open>int\<close>, here 32-bit two's complement with wrap-around
  written out; \<open>%\<close> truncates towards zero; the result is converted back to \<open>uint8_t\<close>.
\<close>

definition hash_product :: "byte \<Rightarrow> byte \<Rightarrow> 32 word" where
  "hash_product character a = (((ucast a :: 32 word) - 1) XOR ucast character) * ucast a"

definition int_rem :: "32 word \<Rightarrow> 32 word \<Rightarrow> 32 word" where
  "int_rem x y = word_of_int (sint x smod sint y)"

definition hash_function :: "byte \<Rightarrow> byte \<Rightarrow> byte \<Rightarrow> byte" where
  "hash_function character a num_slots =
     (if num_slots = 255 then character
      else ucast (int_rem (hash_product character a) (ucast num_slots + 1)))"

section \<open>calculate_character_distribution\<close>

text \<open>
  \<open>char_counts\<close> is the 256-entry array; the result is the pair
  \<open>(unique_chars, max_occurrence)\<close>.
\<close>

fun count_characters :: "byte list \<Rightarrow> nat list \<Rightarrow> nat \<Rightarrow> nat list \<times> nat" where
  "count_characters [] char_counts max_occurrence = (char_counts, max_occurrence)"
| "count_characters (c # cs) char_counts max_occurrence =
     (let n = char_counts ! unat c + 1;
          char_counts' = char_counts[unat c := n]
      in count_characters cs char_counts' (if n > max_occurrence then n else max_occurrence))"

definition calculate_character_distribution :: "byte list \<Rightarrow> nat \<times> nat" where
  "calculate_character_distribution characters =
     (let (char_counts, max_occurrence) = count_characters characters (replicate 256 0) 0
      in (length (filter (\<lambda>n. n > 0) char_counts), max_occurrence))"

section \<open>find_best_hash\<close>

definition primes :: "byte list" where
  "primes = [2, 3, 5, 7, 11, 13, 17, 19, 23, 29, 31, 37, 41, 43, 47, 53, 59, 61, 67, 71, 73,
             79, 83, 89, 97, 101, 103, 107, 113, 127, 131, 137, 149, 151, 157, 163, 167, 173,
             211, 223, 227, 229, 233, 239, 241, 251]"

text \<open>
  The loop \<open>for (j = 0; j < num_chars; j++)\<close> for one \<open>(a, num_slots)\<close>: the first
  argument is \<open>characters\<close> from index \<open>j\<close> on. \<open>Inr None\<close> is the \<open>break\<close> on a false
  positive, \<open>Inr (Some _)\<close> the slot table and the differential score at the end of the
  array. Both the index \<open>j\<close> and the field \<open>count\<close> of a \<open>SLOT\<close> are \<open>int\<close>. Only the
  entries \<open>0 .. num_slots\<close> of \<open>slot_table\<close> are ever touched, and their counts are
  reset for every candidate, so the table is a fresh list of \<open>num_slots + 1\<close> entries;
  the \<open>character\<close> of an entry is read only where its count is not 0.
\<close>

fun route_characters ::
  "byte list \<Rightarrow> nat \<Rightarrow> byte \<Rightarrow> byte \<Rightarrow> SLOT list \<Rightarrow> nat \<Rightarrow> fault + (SLOT list \<times> nat) option"
  where
  "route_characters [] j a num_slots slot_table differential_score =
     Inr (Some (slot_table, differential_score))"
| "route_characters (c # cs) j a num_slots slot_table differential_score =
     (let slot = unat (hash_function c a num_slots)
      in if s_count (slot_table ! slot) = 0
         then if int j = INT_MAX then Inl SignedOverflow
              else route_characters cs (j + 1) a num_slots (slot_table[slot := SLOT c 1])
                     differential_score
         else if s_character (slot_table ! slot) \<noteq> c then Inr None
         else if int (s_count (slot_table ! slot)) = INT_MAX then Inl SignedOverflow
         else let n = s_count (slot_table ! slot) + 1
              in if int j = INT_MAX then Inl SignedOverflow
                 else route_characters cs (j + 1) a num_slots (slot_table[slot := SLOT c n])
                        (if n > differential_score then n else differential_score))"

record best_hash =
  best_score :: nat
  best_a :: byte
  best_m :: byte
  best_slot_table :: "SLOT list option"

text \<open>
  The loop over the primes for one \<open>num_slots\<close>: \<open>Inr (Inl _)\<close> is
  \<open>goto found_hash\<close>, \<open>Inr (Inr _)\<close> is the end of the list.
\<close>

fun try_primes ::
  "byte list \<Rightarrow> nat \<Rightarrow> byte \<Rightarrow> byte list \<Rightarrow> best_hash \<Rightarrow> fault + (best_hash + best_hash)"
  where
  "try_primes characters best_possible_score num_slots [] best = Inr (Inr best)"
| "try_primes characters best_possible_score num_slots (a # as) best =
     (case route_characters characters 0 a num_slots
             (replicate (Suc (unat num_slots)) (SLOT 0 0)) best_possible_score of
        Inl f \<Rightarrow> Inl f
      | Inr None \<Rightarrow> try_primes characters best_possible_score num_slots as best
      | Inr (Some (slot_table, differential_score)) \<Rightarrow>
          (let best' = (if differential_score < best_score best
                        then \<lparr>best_score = differential_score, best_a = a,
                              best_m = num_slots, best_slot_table = Some slot_table\<rparr>
                        else best)
           in if best_score best' = best_possible_score then Inr (Inl best')
              else try_primes characters best_possible_score num_slots as best'))"

text \<open>
  The \<open>do { num_slots++; ... } while (num_slots < 255)\<close> loop; the argument is the value
  of \<open>num_slots\<close> before the increment, which wraps at 256.
\<close>

function find_hash_loop :: "byte list \<Rightarrow> nat \<Rightarrow> byte \<Rightarrow> best_hash \<Rightarrow> fault + best_hash" where
  "find_hash_loop characters best_possible_score num_slots best =
     (let num_slots' = num_slots + 1
      in case try_primes characters best_possible_score num_slots' primes best of
           Inl f \<Rightarrow> Inl f
         | Inr (Inl best') \<Rightarrow> Inr best'
         | Inr (Inr best') \<Rightarrow>
             if num_slots' < 255
             then find_hash_loop characters best_possible_score num_slots' best'
             else Inr best')"
  by pat_completeness auto
termination
proof (relation "measure (\<lambda>(cs, bps, n, b). 255 - unat (n + 1))")
  show "wf (measure (\<lambda>(cs, bps, n, b). 255 - unat (n + 1)))" by simp
next
  fix characters :: "byte list" and best_possible_score :: nat and num_slots x :: byte
    and best x2 :: best_hash
  assume x: "x = num_slots + 1" and lt: "x < 255"
  from lt have "unat x < 255" by (simp add: word_less_nat_alt)
  then have "unat (x + 1) = unat x + 1" by (simp add: unat_word_ariths)
  with \<open>unat x < 255\<close> x
  show "((characters, best_possible_score, x, x2), (characters, best_possible_score, num_slots, best))
          \<in> measure (\<lambda>(cs, bps, n, b). 255 - unat (n + 1))"
    by simp
qed

declare find_hash_loop.simps [simp del]

text \<open>
  \<open>find_best_hash\<close>: \<open>num_chars\<close> is the length of \<open>characters\<close>. The node's
  \<open>column\<close> is not written here (0 in the model; \<open>create_binary_hash\<close> stamps it).
  When no candidate was ever recorded, \<open>best_slot_table\<close> is read without having been
  written.
\<close>

definition make_slot :: "SLOT \<Rightarrow> HashSlot" where
  "make_slot s = (if s_count s > 0 then HashSlot (s_character s) (s_count s) NullPtr 0
                  else HashSlot 0 0 NullPtr 0)"

definition find_best_hash :: "byte list \<Rightarrow> nat \<Rightarrow> nat \<Rightarrow> fault + HashNode" where
  "find_best_hash characters best_possible_score min_unique_chars =
     (case find_hash_loop characters best_possible_score (of_nat min_unique_chars - 1)
             \<lparr>best_score = length characters + 1, best_a = 0, best_m = 0,
              best_slot_table = None\<rparr> of
        Inl f \<Rightarrow> Inl f
      | Inr best \<Rightarrow>
          (case best_slot_table best of
             None \<Rightarrow> Inl InvalidRead
           | Some slot_table \<Rightarrow>
               Inr (HashNode 0 (best_a best) (best_m best)
                      (map make_slot (take (Suc (unat (best_m best))) slot_table)))))"


section \<open>create_character_hash and lookup_character\<close>

text \<open>
  The parallel arrays \<open>characters[0..n)\<close> and \<open>payloads[0..n)\<close> are one list of
  pairs; \<open>num_chars\<close> is its length. The slot array of a node has
  \<open>num_slots + 1\<close> entries; an index beyond it would leave the allocation.
\<close>

definition set_slot :: "HashNode \<Rightarrow> nat \<Rightarrow> HashSlot \<Rightarrow> HashNode" where
  "set_slot node i s =
     HashNode (node_column node) (node_prime node) (node_num_slots node) ((node_slot node)[i := s])"

definition set_column :: "HashNode \<Rightarrow> nat \<Rightarrow> HashNode" where
  "set_column node c = HashNode c (node_prime node) (node_num_slots node) (node_slot node)"

definition clear_counts :: "HashNode \<Rightarrow> HashNode" where
  "clear_counts node =
     HashNode (node_column node) (node_prime node) (node_num_slots node)
       (map (\<lambda>s. if slot_count s > 1
                 then HashSlot (slot_character s) 1 (slot_next_node s) (slot_payload s) else s)
          (node_slot node))"

fun set_payloads :: "(byte \<times> Payload) list \<Rightarrow> HashNode \<Rightarrow> fault + HashNode" where
  "set_payloads [] node = Inr node"
| "set_payloads (entry # rest) node =
     (let slot = unat (hash_function (fst entry) (node_prime node) (node_num_slots node))
      in if slot \<ge> length (node_slot node) then Inl OutOfBounds
         else let s = node_slot node ! slot
              in if slot_count s = 1 \<and> slot_character s = fst entry
                 then set_payloads rest
                        (set_slot node slot
                           (HashSlot (slot_character s) (slot_count s) (slot_next_node s) (snd entry)))
                 else set_payloads rest node)"

definition create_character_hash :: "(byte \<times> Payload) list \<Rightarrow> fault + HashNode" where
  "create_character_hash entries =
     (let characters = map fst entries;
          (min_unique_chars, best_possible_score) = calculate_character_distribution characters
      in case find_best_hash characters best_possible_score min_unique_chars of
           Inl f \<Rightarrow> Inl f
         | Inr node \<Rightarrow> set_payloads entries (clear_counts node))"

text \<open>The result is \<open>Some payload\<close> for the return value 1 and \<open>None\<close> for 0.\<close>

definition lookup_character :: "byte \<Rightarrow> HashNode \<Rightarrow> fault + Payload option" where
  "lookup_character c node =
     (let slot = unat (hash_function c (node_prime node) (node_num_slots node))
      in if slot \<ge> length (node_slot node) then Inl OutOfBounds
         else let s = node_slot node ! slot
              in if slot_count s > 0 \<and> slot_character s = c then Inr (Some (slot_payload s))
                 else Inr None)"

section \<open>compare_binaries and lookup_binary\<close>

text \<open>\<open>memcmp\<close> compares the \<open>length\<close> bytes of the two keys.\<close>

definition compare_binaries :: "BinaryValue \<Rightarrow> BinaryValue \<Rightarrow> bool" where
  "compare_binaries str1 str2 =
     (if length (binary str1) \<noteq> length (binary str2) then False
      else binary str1 = binary str2)"

lemma size_slot_child: "slot_next_node s = Child c \<Longrightarrow> size c < size s"
  by (cases s) simp

lemma size_node_child:
  assumes "i < length (node_slot node)" and "slot_next_node (node_slot node ! i) = Child c"
  shows "size c < size node"
proof -
  have "node_slot node ! i \<in> set (node_slot node)" using assms(1) by simp
  then have "size (node_slot node ! i) \<le> size_list size (node_slot node)"
    by (rule size_list_estimation') simp
  moreover have "size c < size (node_slot node ! i)" using assms(2) by (rule size_slot_child)
  ultimately show ?thesis by (cases node) simp
qed

function lookup_binary :: "BinaryValue \<Rightarrow> HashNode \<Rightarrow> fault + Payload option" where
  "lookup_binary str node =
     (let effective_column = node_column node;
          c = (if effective_column \<ge> length (binary str) then 0
               else binary str ! effective_column);
          slot = unat (hash_function c (node_prime node) (node_num_slots node))
      in if slot \<ge> length (node_slot node) then Inl OutOfBounds
         else let s = node_slot node ! slot
              in if slot_count s = 0 then Inr None
                 else if slot_count s = 1
                 then (case slot_next_node s of
                         Binary b \<Rightarrow>
                           if compare_binaries str b then Inr (Some (slot_payload s)) else Inr None
                       | _ \<Rightarrow> Inl InvalidRead)
                 else (case slot_next_node s of
                         Child child \<Rightarrow> lookup_binary str child
                       | _ \<Rightarrow> Inl InvalidRead))"
  by pat_completeness auto
termination
proof (relation "measure (\<lambda>(str, node). size node)")
  show "wf (measure (\<lambda>(str, node). size node))" by simp
next
  fix str :: BinaryValue and node child :: HashNode and slot :: nat and s :: HashSlot
  assume "\<not> length (node_slot node) \<le> slot" and "s = node_slot node ! slot"
    and "slot_next_node s = Child child"
  then have "size child < size node" by (intro size_node_child [of slot]) simp_all
  then show "((str, child), (str, node)) \<in> measure (\<lambda>(str, node). size node)" by simp
qed

declare lookup_binary.simps [simp del]


section \<open>hash_efficiency and hash_table_efficiency\<close>

text \<open>
  The loop of \<open>hash_efficiency\<close> runs over the slot array with the accumulators
  \<open>max_comparisons_needed\<close>, \<open>total_slots\<close> and \<open>total_empty_slots\<close>
  (\<open>total_comparisons\<close> is never read). The result is
  \<open>(slots_used, empty_slots, max_comparisons)\<close>.
\<close>

fun hash_efficiency :: "HashNode \<Rightarrow> fault + (nat \<times> nat \<times> nat)"
  and efficiency_slots :: "HashSlot list \<Rightarrow> nat \<Rightarrow> nat \<Rightarrow> nat \<Rightarrow> fault + (nat \<times> nat \<times> nat)"
  where
  "hash_efficiency (HashNode col a m slots) =
     (case efficiency_slots slots 0 0 0 of
        Inl f \<Rightarrow> Inl f
      | Inr (max_comparisons_needed, total_slots, total_empty_slots) \<Rightarrow>
          Inr (total_slots, total_empty_slots, max_comparisons_needed + 1))"
| "efficiency_slots [] max_comparisons_needed total_slots total_empty_slots =
     Inr (max_comparisons_needed, total_slots, total_empty_slots)"
| "efficiency_slots (HashSlot ch cnt nxt p # rest) max_comparisons_needed total_slots total_empty_slots =
     (if cnt = 0
      then efficiency_slots rest max_comparisons_needed (total_slots + 1) (total_empty_slots + 1)
      else if cnt = 1
      then efficiency_slots rest max_comparisons_needed (total_slots + 1) total_empty_slots
      else (case nxt of
              Child child \<Rightarrow>
                (case hash_efficiency child of
                   Inl f \<Rightarrow> Inl f
                 | Inr (child_slots_used, child_empty_slots, child_max_comparisons) \<Rightarrow>
                     efficiency_slots rest
                       (if child_max_comparisons > max_comparisons_needed
                        then child_max_comparisons else max_comparisons_needed)
                       (total_slots + 1 + child_slots_used)
                       (total_empty_slots + child_empty_slots))
            | _ \<Rightarrow> Inl InvalidRead))"

text \<open>
  \<open>hash_table_efficiency\<close> returns \<open>(slot_efficiency, max_comparisons)\<close>; the
  percentage is an integer division.
\<close>

definition hash_table_efficiency :: "HashNode \<Rightarrow> fault + (nat \<times> nat)" where
  "hash_table_efficiency node =
     (case hash_efficiency node of
        Inl f \<Rightarrow> Inl f
      | Inr (slots_used, empty_slots, max_comparisons) \<Rightarrow>
          Inr (slots_used * 100 div (slots_used + empty_slots), max_comparisons))"

section \<open>Measures of a tree, in the specification's words\<close>

text \<open>
  The depth of a tree is the longest chain of nodes from the root along child pointers;
  a slot is occupied when it is a leaf or a branch (\<open>count \<ge> 1\<close>) and empty otherwise.
\<close>

fun tree_depth :: "HashNode \<Rightarrow> nat"
  and slots_depth :: "HashSlot list \<Rightarrow> nat"
  where
  "tree_depth (HashNode col a m slots) = Suc (slots_depth slots)"
| "slots_depth [] = 0"
| "slots_depth (HashSlot ch cnt nxt p # rest) =
     max (case nxt of Child child \<Rightarrow> tree_depth child | _ \<Rightarrow> 0) (slots_depth rest)"

fun occupied_slots :: "HashNode \<Rightarrow> nat"
  and occupied_in :: "HashSlot list \<Rightarrow> nat"
  where
  "occupied_slots (HashNode col a m slots) = occupied_in slots"
| "occupied_in [] = 0"
| "occupied_in (HashSlot ch cnt nxt p # rest) =
     (if cnt \<ge> 1 then 1 else 0)
     + (case nxt of Child child \<Rightarrow> occupied_slots child | _ \<Rightarrow> 0) + occupied_in rest"

fun vacant_slots :: "HashNode \<Rightarrow> nat"
  and vacant_in :: "HashSlot list \<Rightarrow> nat"
  where
  "vacant_slots (HashNode col a m slots) = vacant_in slots"
| "vacant_in [] = 0"
| "vacant_in (HashSlot ch cnt nxt p # rest) =
     (if cnt = 0 then 1 else 0)
     + (case nxt of Child child \<Rightarrow> vacant_slots child | _ \<Rightarrow> 0) + vacant_in rest"

section \<open>create_binary_hash\<close>

text \<open>
  The heap, as far as the claims need it: how many blocks of each kind are allocated
  and not yet freed. Nodes are the blocks of \<open>find_best_hash\<close>, binaries the
  \<open>BinaryValue\<close> copies of the leaves, buffers the work arrays (\<open>column_chars\<close>,
  \<open>best_column_chars\<close>, \<open>grouped_strings\<close>, \<open>grouped_payloads\<close>).
\<close>

record heap =
  live_nodes :: nat
  live_binaries :: nat
  live_buffers :: nat

definition malloc_buffer :: "heap \<Rightarrow> heap" where
  "malloc_buffer h = h\<lparr>live_buffers := live_buffers h + 1\<rparr>"

definition free_buffer :: "heap \<Rightarrow> heap" where
  "free_buffer h = h\<lparr>live_buffers := live_buffers h - 1\<rparr>"

definition malloc_node :: "heap \<Rightarrow> heap" where
  "malloc_node h = h\<lparr>live_nodes := live_nodes h + 1\<rparr>"

definition free_node :: "heap \<Rightarrow> heap" where
  "free_node h = h\<lparr>live_nodes := live_nodes h - 1\<rparr>"

definition malloc_binary :: "heap \<Rightarrow> heap" where
  "malloc_binary h = h\<lparr>live_binaries := live_binaries h + 1\<rparr>"

definition free_binaries :: "nat \<Rightarrow> heap \<Rightarrow> heap" where
  "free_binaries n h = h\<lparr>live_binaries := live_binaries h - n\<rparr>"

text \<open>
  The result of a build: a fault, or the returned pointer (\<open>None\<close> is \<open>NULL\<close>)
  together with the heap. The parallel arrays \<open>values\<close> and \<open>payloads\<close> are one list
  of pairs and \<open>num_values\<close> is its length.
\<close>

type_synonym entries = "(BinaryValue \<times> Payload) list"
type_synonym build = "fault + (HashNode option \<times> heap)"

subsection \<open>The column survey\<close>

record survey =
  best_column :: nat
  best_num_slots :: nat
  best_unique_chars :: nat
  best_column_chars :: "byte list"

definition column_bytes :: "nat \<Rightarrow> BinaryValue list \<Rightarrow> byte list" where
  "column_bytes c values =
     map (\<lambda>v. if length (binary v) > c then binary v ! c else 0) values"

fun max_length :: "BinaryValue list \<Rightarrow> nat" where
  "max_length [] = 0"
| "max_length (v # vs) = max (length (binary v)) (max_length vs)"

lemma max_length_ge: "v \<in> set vs \<Longrightarrow> length (binary v) \<le> max_length vs"
  by (induction vs) auto

text \<open>
  The loop \<open>for (c = 0; !last_column; c++)\<close>: the body runs for \<open>c\<close>, then \<open>c\<close>, an
  \<open>int\<close>, is incremented, and the loop ends after the first column that no key
  reaches.
\<close>

function survey_columns :: "BinaryValue list \<Rightarrow> nat \<Rightarrow> survey \<Rightarrow> fault + survey" where
  "survey_columns values c best =
     (let last_column = list_all (\<lambda>v. \<not> length (binary v) > c) values;
          column_chars = column_bytes c values;
          (unique_chars, num_slots) = calculate_character_distribution column_chars;
          best' = (if num_slots < best_num_slots best
                   then \<lparr>best_column = c, best_num_slots = num_slots,
                         best_unique_chars = unique_chars, best_column_chars = column_chars\<rparr>
                   else best)
      in if int c = INT_MAX then Inl SignedOverflow
         else if last_column then Inr best'
         else survey_columns values (c + 1) best')"
  by pat_completeness auto
termination
proof (relation "measure (\<lambda>(values, c, best). max_length values - c)")
  show "wf (measure (\<lambda>(values, c, best). max_length values - c))" by simp
next
  fix vs :: "BinaryValue list" and c :: nat and best best' :: survey and last_column :: bool
  assume "last_column = list_all (\<lambda>v. \<not> length (binary v) > c) vs" and "\<not> last_column"
  then obtain v where "v \<in> set vs" and "c < length (binary v)"
    by (auto simp: list_all_iff)
  then have "c < max_length vs" using max_length_ge [of v vs] by simp
  then show "((vs, c + 1, best'), (vs, c, best))
               \<in> measure (\<lambda>(values, c, best). max_length values - c)"
    by simp
qed

declare survey_columns.simps [simp del]

text \<open>
  The survey as \<open>create_binary_hash\<close> starts it (lines 337 to 343): from column 0, with
  \<open>best_num_slots = num_values + 1\<close>. \<open>best_unique_chars\<close> and the contents of
  \<open>best_column_chars\<close> are not initialised; the first column always overwrites them.
\<close>

definition column_survey :: "entries \<Rightarrow> fault + survey" where
  "column_survey values =
     survey_columns (map fst values) 0
       \<lparr>best_column = 0, best_num_slots = length values + 1,
        best_unique_chars = 0, best_column_chars = []\<rparr>"

subsection \<open>Slot population\<close>

text \<open>
  The search of a singleton slot (lines 386 to 409): the first key whose byte at the
  column, read with the length check, is the slot's character.
\<close>

fun find_binary :: "nat \<Rightarrow> byte \<Rightarrow> entries \<Rightarrow> (BinaryValue \<times> Payload) option" where
  "find_binary col ch [] = None"
| "find_binary col ch ((v, p) # rest) =
     (let c = (if col \<ge> length (binary v) then 0 else binary v ! col)
      in if c = ch then Some (v, p) else find_binary col ch rest)"

text \<open>
  The gathering of a group (lines 432 to 437) reads \<open>values[j].binary[column]\<close> with no
  length check: for a key that does not reach the column it reads what follows the
  key, and leaves the object when nothing readable does.
\<close>

fun gather :: "nat \<Rightarrow> byte \<Rightarrow> entries \<Rightarrow> fault + entries" where
  "gather col ch [] = Inr []"
| "gather col ch ((v, p) # rest) =
     (case read_byte v col of
        Inl f \<Rightarrow> Inl f
      | Inr c \<Rightarrow>
          (case gather col ch rest of
             Inl f \<Rightarrow> Inl f
           | Inr grouped \<Rightarrow> Inr (if c = ch then (v, p) # grouped else grouped)))"

text \<open>
  The clean-up after a child came back \<open>NULL\<close> (lines 446 to 452): the payload array,
  the leaf copies of the slots \<open>0 .. i\<close>, and the node. Child nodes of earlier slots
  and \<open>best_column_chars\<close> are not touched.
\<close>

definition release_partial :: "HashNode \<Rightarrow> nat \<Rightarrow> heap \<Rightarrow> heap" where
  "release_partial node i h =
     free_node
       (free_binaries
          (length (filter (\<lambda>s. slot_count s = 1 \<and> slot_next_node s \<noteq> NullPtr)
                     (take (Suc i) (node_slot node))))
          (free_buffer h))"

text \<open>
  The loop over the slots \<open>i = 0 .. num_slots\<close> (lines 379 to 457), with the recursive
  call as a parameter. The arrays \<open>grouped_strings\<close> and \<open>grouped_payloads\<close> have
  as many entries as the slot's \<open>count\<close>: gathering more would write beyond them, so
  the \<open>int\<close> that counts the gathered keys stays within the slot's count.
\<close>

fun populate_slots ::
  "(entries \<Rightarrow> heap \<Rightarrow> build) \<Rightarrow> entries \<Rightarrow> nat list \<Rightarrow> HashNode \<Rightarrow> heap \<Rightarrow> build" where
  "populate_slots build_child values [] node h = Inr (Some node, h)"
| "populate_slots build_child values (i # rest) node h =
     (if i \<ge> length (node_slot node) then Inl OutOfBounds
      else let s = node_slot node ! i
           in if slot_count s = 0
              then populate_slots build_child values rest
                     (set_slot node i (HashSlot (slot_character s) (slot_count s) NullPtr (slot_payload s))) h
              else if slot_count s = 1
              then (case find_binary (node_column node) (slot_character s) values of
                      None \<Rightarrow> Inl BinaryNotFound
                    | Some (v, p) \<Rightarrow>
                        populate_slots build_child values rest
                          (set_slot node i (HashSlot (slot_character s) (slot_count s) (Binary v) p))
                          (malloc_binary h))
              else (case gather (node_column node) (slot_character s) values of
                      Inl f \<Rightarrow> Inl f
                    | Inr grouped \<Rightarrow>
                        if length grouped > slot_count s then Inl OutOfBounds
                        else (case build_child grouped (malloc_buffer (malloc_buffer h)) of
                                Inl f \<Rightarrow> Inl f
                              | Inr (None, h') \<Rightarrow>
                                  Inr (None, release_partial node i (free_buffer h'))
                              | Inr (Some child, h') \<Rightarrow>
                                  populate_slots build_child values rest
                                    (set_slot node i
                                       (HashSlot (slot_character s) (slot_count s) (Child child) (slot_payload s)))
                                    (free_buffer h'))))"

section \<open>Facts about hash_function\<close>

lemma unat_byte_lt: "unat (b :: byte) < 256"
  using unsigned_less [of b, where 'a = nat] by simp

lemma sint_small:
  assumes "unat (w :: 32 word) < 65536"
  shows "sint w = int (unat w)"
proof -
  have "sint (word_of_nat (unat w) :: 32 word) = signed_take_bit 31 (int (unat w))"
    by (simp only: signed_of_nat) simp
  also have "\<dots> = int (unat w)"
  proof (rule signed_take_bit_int_eq_self)
    show "- (2 ^ 31) \<le> int (unat w)" by (rule order_trans [of _ 0]) simp_all
    have "int (unat w) < int 65536" using assms by (simp only: of_nat_less_iff)
    then show "int (unat w) < 2 ^ 31" by simp
  qed
  finally show ?thesis by simp
qed

lemma ucast_small:
  assumes "unat (w :: 32 word) < 256"
  shows "unat (ucast w :: byte) = unat w"
proof -
  have "unat (ucast w :: byte) = take_bit 8 (unat w)"
    by (simp add: unsigned_ucast_eq)
  also have "\<dots> = unat w"
    using assms by (intro take_bit_nat_eq_self) simp
  finally show ?thesis .
qed

lemma unat_word_of_int_small:
  assumes "0 \<le> i" "i < 65536"
  shows "unat (word_of_int i :: 32 word) = nat i"
proof -
  have "take_bit 32 i = i"
    using assms by (intro take_bit_int_eq_self) simp_all
  then show ?thesis
    by (simp add: unsigned_of_int)
qed

lemma unat_ucast_plus_1: "unat (ucast (m::byte) + 1 :: 32 word) = unat m + 1"
proof -
  have "(ucast m + 1 :: 32 word) = word_of_nat (unat m + 1)" by simp
  moreover have "unat (word_of_nat (unat m + 1) :: 32 word) = unat m + 1"
    using unat_byte_lt [of m] by (simp only: unat_of_nat) simp
  ultimately show ?thesis by (simp add: add.commute)
qed

lemma int_rem_unat:
  assumes x: "unat x < 65536" and y: "unat y < 65536"
  shows "unat (int_rem x y) = unat x mod unat y"
proof -
  have sx: "sint x = int (unat x)" using x by (rule sint_small)
  have sy: "sint y = int (unat y)" using y by (rule sint_small)
  have "sint x smod sint y = int (unat x) mod int (unat y)"
    unfolding sx sy by (intro smod_mod_positive) simp_all
  also have "\<dots> = int (unat x mod unat y)" by (simp add: zmod_int)
  finally have e: "sint x smod sint y = int (unat x mod unat y)" .
  have "unat x mod unat y \<le> unat x" by simp
  with x have "int (unat x mod unat y) < 65536" by linarith
  then have "unat (word_of_int (int (unat x mod unat y)) :: 32 word) = nat (int (unat x mod unat y))"
    by (intro unat_word_of_int_small) simp_all
  then show ?thesis by (simp add: int_rem_def e)
qed

lemma xor_lt_256: "x < 256 \<Longrightarrow> y < 256 \<Longrightarrow> (x::nat) XOR y < 256"
proof -
  assume "x < 256" "y < 256"
  then have "int x < 2 ^ 8" "int y < 2 ^ 8" by simp_all
  then have "int x XOR int y < 2 ^ 8" by (intro XOR_upper) simp_all
  then have "int (x XOR y) < 256" by (simp add: of_nat_xor_eq)
  then show ?thesis by simp
qed

lemma hash_product_lt_aux: "((unat (a::byte) - 1) XOR unat (c::byte)) * unat a < 65536"
proof -
  have "(unat a - 1) XOR unat c < 256"
    using unat_byte_lt [of a] unat_byte_lt [of c] by (intro xor_lt_256) simp_all
  then have "((unat a - 1) XOR unat c) * unat a < 256 * 256"
    using unat_byte_lt [of a] by (intro mult_strict_mono) simp_all
  then show ?thesis by simp
qed

lemma hash_product_unat:
  "unat (hash_product c a) = ((unat a - 1) XOR unat c) * unat a"
proof (cases "a = 0")
  case True
  then show ?thesis by (simp add: hash_product_def)
next
  case False
  then have a1: "1 \<le> unat a" by (simp add: unat_gt_0 Suc_leI)
  have e1: "(ucast a :: 32 word) - 1 = of_nat (unat a - 1)"
    using a1 by (simp add: of_nat_diff)
  have e2: "(ucast c :: 32 word) = of_nat (unat c)" by simp
  have e3: "(of_nat (unat a - 1) :: 32 word) XOR of_nat (unat c) = of_nat ((unat a - 1) XOR unat c)"
    by (simp add: of_nat_xor_eq)
  have "hash_product c a = of_nat (((unat a - 1) XOR unat c) * unat a)"
    unfolding hash_product_def e1 e2 e3 by simp
  then have "unat (hash_product c a) = (((unat a - 1) XOR unat c) * unat a) mod 2 ^ 32"
    by (simp only: unat_of_nat) simp
  then show ?thesis
    using hash_product_lt_aux [of a c] by simp
qed

lemma hash_function_unat:
  "unat (hash_function c a m) =
     (if m = 255 then unat c else (((unat a - 1) XOR unat c) * unat a) mod (unat m + 1))"
proof (cases "m = 255")
  case True
  then show ?thesis by (simp add: hash_function_def)
next
  case False
  let ?p = "hash_product c a" and ?d = "ucast m + 1 :: 32 word"
  have p: "unat ?p < 65536" using hash_product_lt_aux [of a c] by (simp add: hash_product_unat)
  have d: "unat ?d = unat m + 1" by (rule unat_ucast_plus_1)
  have d': "unat ?d < 65536" using unat_byte_lt [of m] by (simp add: d)
  have r: "unat (int_rem ?p ?d) = unat ?p mod (unat m + 1)"
    using int_rem_unat [OF p d'] by (simp only: d)
  have "unat ?p mod (unat m + 1) < unat m + 1" by simp
  then have "unat (int_rem ?p ?d) < 256"
    using unat_byte_lt [of m] by (simp only: r)
  then have "unat (ucast (int_rem ?p ?d) :: byte) = unat (int_rem ?p ?d)"
    by (rule ucast_small)
  then show ?thesis
    using False by (simp add: hash_function_def r hash_product_unat)
qed

lemma hash_function_le: "unat (hash_function c a m) \<le> unat m"
proof (cases "m = 255")
  case True
  then show ?thesis using unat_byte_lt [of c] by (simp add: hash_function_def)
next
  case False
  have "(((unat a - 1) XOR unat c) * unat a) mod (unat m + 1) < unat m + 1" by simp
  then show ?thesis using False by (simp add: hash_function_unat)
qed

lemma hash_product_int:
  "int (((unat a - 1) XOR unat c) * unat a) = ((uint (a::byte) - 1) XOR uint (c::byte)) * uint a"
proof (cases "a = 0")
  case True
  then show ?thesis by simp
next
  case False
  then have a1: "1 \<le> unat a" by (simp add: unat_gt_0 Suc_leI)
  have "int (unat a - 1) = uint a - 1" using a1 by (simp add: of_nat_diff)
  then show ?thesis by (simp add: of_nat_xor_eq)
qed

section \<open>Facts about calculate_character_distribution\<close>

lemma byte_of_nat_unat: "i < 256 \<Longrightarrow> unat (of_nat i :: byte) = i"
  by (simp add: unat_of_nat)

lemma count_characters_counts:
  assumes "length counts = 256"
  shows "length (fst (count_characters cs counts mx)) = 256
         \<and> (\<forall>i<256. fst (count_characters cs counts mx) ! i = counts ! i + count_list cs (of_nat i))"
  using assms
proof (induction cs arbitrary: counts mx)
  case Nil
  then show ?case by simp
next
  case (Cons c cs)
  let ?counts = "counts[unat c := counts ! unat c + 1]"
  let ?mx = "if counts ! unat c + 1 > mx then counts ! unat c + 1 else mx"
  have len: "length ?counts = 256" using Cons.prems by simp
  have step: "count_characters (c # cs) counts mx = count_characters cs ?counts ?mx"
    by (simp add: Let_def)
  have "\<forall>i<256. ?counts ! i + count_list cs (of_nat i) = counts ! i + count_list (c # cs) (of_nat i)"
  proof (intro allI impI)
    fix i :: nat assume i: "i < 256"
    show "?counts ! i + count_list cs (of_nat i) = counts ! i + count_list (c # cs) (of_nat i)"
    proof (cases "i = unat c")
      case True
      then have "(of_nat i :: byte) = c" by simp
      then show ?thesis using True Cons.prems i by simp
    next
      case False
      then have "(of_nat i :: byte) \<noteq> c" using byte_of_nat_unat [OF i] by auto
      then show ?thesis using False by simp
    qed
  qed
  then show ?case using Cons.IH [OF len, of ?mx] unfolding step by simp
qed

lemma count_characters_max:
  assumes "length counts = 256" and "\<forall>i<256. counts ! i \<le> mx"
    and "mx = 0 \<or> (\<exists>i<256. counts ! i = mx)"
  shows "(\<forall>i<256. fst (count_characters cs counts mx) ! i \<le> snd (count_characters cs counts mx))
         \<and> (snd (count_characters cs counts mx) = 0
            \<or> (\<exists>i<256. fst (count_characters cs counts mx) ! i = snd (count_characters cs counts mx)))"
  using assms
proof (induction cs arbitrary: counts mx)
  case Nil
  then show ?case by simp
next
  case (Cons c cs)
  let ?n = "counts ! unat c + 1"
  let ?counts = "counts[unat c := ?n]"
  let ?mx = "if ?n > mx then ?n else mx"
  have c: "unat c < 256" by (rule unat_byte_lt)
  have len: "length ?counts = 256" using Cons.prems by simp
  have step: "count_characters (c # cs) counts mx = count_characters cs ?counts ?mx"
    by (simp add: Let_def)
  have ub: "\<forall>i<256. ?counts ! i \<le> ?mx"
  proof (intro allI impI)
    fix i :: nat assume "i < 256"
    then show "?counts ! i \<le> ?mx"
      using Cons.prems(1,2) by (cases "i = unat c") auto
  qed
  have ex: "?mx = 0 \<or> (\<exists>i<256. ?counts ! i = ?mx)"
  proof (cases "?n > mx")
    case True
    then have "?counts ! unat c = ?mx" using Cons.prems(1) c by simp
    then show ?thesis using c by blast
  next
    case False
    then have "mx \<noteq> 0" by simp
    then obtain i where i: "i < 256" "counts ! i = mx" using Cons.prems(3) by blast
    with False have "i \<noteq> unat c" by auto
    then have "?counts ! i = ?mx" using i False by simp
    then show ?thesis using i by blast
  qed
  show ?case using Cons.IH [OF len ub ex] unfolding step by simp
qed

lemma distribution_eq:
  "calculate_character_distribution cs =
     (length (filter (\<lambda>n. n > 0) (fst (count_characters cs (replicate 256 0) 0))),
      snd (count_characters cs (replicate 256 0) 0))"
  by (simp add: calculate_character_distribution_def case_prod_beta)

lemma count_list_pos: "0 < count_list xs x \<longleftrightarrow> x \<in> set xs"
  using count_list_0_iff [of xs x] by auto

lemma distribution_fst: "fst (calculate_character_distribution cs) = card (set cs)"
proof -
  let ?r = "count_characters cs (replicate 256 0) 0"
  have cnt: "length (fst ?r) = 256" "\<forall>i<256. fst ?r ! i = count_list cs (of_nat i)"
    using count_characters_counts [of "replicate 256 0" cs 0] by simp_all
  then have eq: "fst ?r = map (\<lambda>i. count_list cs (of_nat i :: byte)) [0..<256]"
    by (intro nth_equalityI) simp_all
  have "length (filter (\<lambda>n. n > 0) (fst ?r))
          = length (filter (\<lambda>i. count_list cs (of_nat i :: byte) > 0) [0..<256])"
    unfolding eq by (simp add: filter_map comp_def)
  also have "\<dots> = card ({i. count_list cs (of_nat i :: byte) > 0} \<inter> set [0..<256])"
    by (rule distinct_length_filter) simp
  also have "{i. count_list cs (of_nat i :: byte) > 0} \<inter> set [0..<256] = unat ` set cs"
  proof (intro set_eqI iffI)
    fix i assume "i \<in> {i. count_list cs (of_nat i :: byte) > 0} \<inter> set [0..<256]"
    then have i: "i < 256" and "(of_nat i :: byte) \<in> set cs"
      by (auto simp: count_list_pos)
    then show "i \<in> unat ` set cs" using byte_of_nat_unat [OF i] by force
  next
    fix i assume "i \<in> unat ` set cs"
    then obtain c where c: "c \<in> set cs" "i = unat c" by blast
    then show "i \<in> {i. count_list cs (of_nat i :: byte) > 0} \<inter> set [0..<256]"
      using unat_byte_lt [of c] by (simp add: count_list_pos)
  qed
  also have "card (unat ` set cs) = card (set cs)"
    by (intro card_image inj_onI) (simp add: word_unat_eq_iff)
  finally show ?thesis
    by (simp add: distribution_eq)
qed

lemma distribution_snd_upper: "count_list cs c \<le> snd (calculate_character_distribution cs)"
proof -
  let ?r = "count_characters cs (replicate 256 0) 0"
  have "fst ?r ! unat c = count_list cs c"
    using count_characters_counts [of "replicate 256 0" cs 0] unat_byte_lt [of c] by simp
  moreover have "fst ?r ! unat c \<le> snd ?r"
    using count_characters_max [of "replicate 256 0" 0 cs] unat_byte_lt [of c] by simp
  ultimately show ?thesis
    by (simp add: distribution_eq)
qed

lemma distribution_snd_attained:
  "snd (calculate_character_distribution cs) = 0
   \<or> (\<exists>c. count_list cs c = snd (calculate_character_distribution cs))"
proof -
  let ?r = "count_characters cs (replicate 256 0) 0"
  have cnt: "\<forall>i<256. fst ?r ! i = count_list cs (of_nat i)"
    using count_characters_counts [of "replicate 256 0" cs 0] by simp
  have "snd ?r = 0 \<or> (\<exists>i<256. fst ?r ! i = snd ?r)"
    using count_characters_max [of "replicate 256 0" 0 cs] by simp
  then have "snd ?r = 0 \<or> (\<exists>c. count_list cs c = snd ?r)"
    using cnt by metis
  then show ?thesis
    by (simp add: distribution_eq)
qed

lemma distribution_snd_le_length: "snd (calculate_character_distribution cs) \<le> length cs"
  using distribution_snd_attained [of cs] count_le_length [of cs] by (metis le0)

section \<open>Facts about find_best_hash\<close>

definition routed :: "byte \<Rightarrow> byte \<Rightarrow> byte list \<Rightarrow> SLOT list \<Rightarrow> bool" where
  "routed a m seen tbl \<longleftrightarrow>
     length tbl = Suc (unat m)
     \<and> (\<forall>c \<in> set seen.
           s_character (tbl ! unat (hash_function c a m)) = c
           \<and> s_count (tbl ! unat (hash_function c a m)) = count_list seen c)
     \<and> (\<forall>j < length tbl. s_count (tbl ! j) > 0 \<longrightarrow>
           s_character (tbl ! j) \<in> set seen \<and> unat (hash_function (s_character (tbl ! j)) a m) = j)"

lemma routed_init: "routed a m [] (replicate (Suc (unat m)) (SLOT 0 0))"
  by (simp add: routed_def del: replicate_Suc)

lemma routed_step_new:
  assumes r: "routed a m seen tbl" and z: "s_count (tbl ! unat (hash_function c a m)) = 0"
  shows "routed a m (seen @ [c]) (tbl[unat (hash_function c a m) := SLOT c 1])"
proof -
  let ?h = "\<lambda>x. unat (hash_function x a m)"
  have len: "length tbl = Suc (unat m)" using r by (simp add: routed_def)
  have hlt: "\<And>x. ?h x < length tbl" using hash_function_le [of _ a m] len by (simp add: less_Suc_eq_le)
  have seen: "\<And>x. x \<in> set seen \<Longrightarrow> s_character (tbl ! ?h x) = x \<and> s_count (tbl ! ?h x) = count_list seen x"
    using r by (simp add: routed_def)
  have notin: "c \<notin> set seen"
  proof
    assume "c \<in> set seen"
    then have "s_count (tbl ! ?h c) = count_list seen c" "0 < count_list seen c"
      using seen count_list_pos [of seen c] by simp_all
    then show False using z by simp
  qed
  have other: "\<And>x. x \<in> set seen \<Longrightarrow> ?h c \<noteq> ?h x"
  proof
    fix x assume x: "x \<in> set seen" and "?h c = ?h x"
    then have "s_count (tbl ! ?h c) = count_list seen x" using seen [OF x] by simp
    then show False using z count_list_pos [of seen x] x by simp
  qed
  show ?thesis
    unfolding routed_def
  proof (intro conjI ballI allI impI)
    show "length (tbl[?h c := SLOT c 1]) = Suc (unat m)" using len by simp
  next
    fix x assume "x \<in> set (seen @ [c])"
    then consider "x = c" | "x \<in> set seen" "x \<noteq> c" by auto
    then show "s_character (tbl[?h c := SLOT c 1] ! ?h x) = x"
      using hlt other seen by cases auto
  next
    fix x assume "x \<in> set (seen @ [c])"
    then consider "x = c" | "x \<in> set seen" "x \<noteq> c" by auto
    then show "s_count (tbl[?h c := SLOT c 1] ! ?h x) = count_list (seen @ [c]) x"
      using hlt other seen notin by cases (auto simp: count_list_0_iff)
  next
    fix j assume j: "j < length (tbl[?h c := SLOT c 1])" "0 < s_count (tbl[?h c := SLOT c 1] ! j)"
    show "s_character (tbl[?h c := SLOT c 1] ! j) \<in> set (seen @ [c])"
      using j r by (cases "j = ?h c") (auto simp: routed_def)
    show "?h (s_character (tbl[?h c := SLOT c 1] ! j)) = j"
      using j r by (cases "j = ?h c") (auto simp: routed_def)
  qed
qed

lemma routed_step_same:
  assumes r: "routed a m seen tbl" and z: "s_count (tbl ! unat (hash_function c a m)) \<noteq> 0"
    and ch: "s_character (tbl ! unat (hash_function c a m)) = c"
  shows "routed a m (seen @ [c])
           (tbl[unat (hash_function c a m) := SLOT c (s_count (tbl ! unat (hash_function c a m)) + 1)])"
    and "s_count (tbl ! unat (hash_function c a m)) = count_list seen c"
proof -
  let ?h = "\<lambda>x. unat (hash_function x a m)"
  let ?t = "tbl[?h c := SLOT c (s_count (tbl ! ?h c) + 1)]"
  have len: "length tbl = Suc (unat m)" using r by (simp add: routed_def)
  have hlt: "\<And>x. ?h x < length tbl" using hash_function_le [of _ a m] len by (simp add: less_Suc_eq_le)
  have seen: "\<And>x. x \<in> set seen \<Longrightarrow> s_character (tbl ! ?h x) = x \<and> s_count (tbl ! ?h x) = count_list seen x"
    using r by (simp add: routed_def)
  have "s_character (tbl ! ?h c) \<in> set seen"
    using r z hlt [of c] by (simp add: routed_def)
  then have cin: "c \<in> set seen" using ch by simp
  then show cnt: "s_count (tbl ! ?h c) = count_list seen c" using seen by simp
  have other: "\<And>x. x \<in> set seen \<Longrightarrow> x \<noteq> c \<Longrightarrow> ?h c \<noteq> ?h x"
  proof
    fix x assume x: "x \<in> set seen" "x \<noteq> c" and "?h c = ?h x"
    then have "s_character (tbl ! ?h c) = x" using seen [of x] by simp
    then show False using ch x by simp
  qed
  show "routed a m (seen @ [c]) ?t"
    unfolding routed_def
  proof (intro conjI ballI allI impI)
    show "length ?t = Suc (unat m)" using len by simp
  next
    fix x assume "x \<in> set (seen @ [c])"
    then consider "x = c" | "x \<in> set seen" "x \<noteq> c" by auto
    then show "s_character (?t ! ?h x) = x"
      using hlt other seen by cases auto
  next
    fix x assume "x \<in> set (seen @ [c])"
    then consider "x = c" | "x \<in> set seen" "x \<noteq> c" by auto
    then show "s_count (?t ! ?h x) = count_list (seen @ [c]) x"
      using hlt other seen cnt by cases auto
  next
    fix j assume j: "j < length ?t" "0 < s_count (?t ! j)"
    show "s_character (?t ! j) \<in> set (seen @ [c])"
      using j r by (cases "j = ?h c") (auto simp: routed_def)
    show "?h (s_character (?t ! j)) = j"
      using j r by (cases "j = ?h c") (auto simp: routed_def)
  qed
qed

lemma route_characters_routed:
  assumes "routed a m seen tbl"
    and "route_characters cs j a m tbl sc = Inr (Some (tbl', sc'))"
  shows "routed a m (seen @ cs) tbl'"
  using assms
proof (induction cs arbitrary: seen tbl sc j)
  case Nil
  then show ?case by simp
next
  case (Cons c cs)
  let ?slot = "unat (hash_function c a m)"
  show ?case
  proof (cases "s_count (tbl ! ?slot) = 0")
    case True
    then have "route_characters cs (j + 1) a m (tbl[?slot := SLOT c 1]) sc = Inr (Some (tbl', sc'))"
      using Cons.prems(2) by (simp add: Let_def split: if_splits)
    moreover have "routed a m (seen @ [c]) (tbl[?slot := SLOT c 1])"
      using Cons.prems(1) True by (rule routed_step_new)
    ultimately have "routed a m ((seen @ [c]) @ cs) tbl'" by (rule Cons.IH [rotated])
    then show ?thesis by simp
  next
    case False
    then have ch: "s_character (tbl ! ?slot) = c"
      using Cons.prems(2) by (simp add: Let_def split: if_splits)
    let ?n = "s_count (tbl ! ?slot) + 1"
    have "route_characters cs (j + 1) a m (tbl[?slot := SLOT c ?n]) (if ?n > sc then ?n else sc)
            = Inr (Some (tbl', sc'))"
      using Cons.prems(2) False ch by (auto simp add: Let_def split: if_splits)
    moreover have "routed a m (seen @ [c]) (tbl[?slot := SLOT c ?n])"
      using Cons.prems(1) False ch by (rule routed_step_same)
    ultimately have "routed a m ((seen @ [c]) @ cs) tbl'" by (rule Cons.IH [rotated])
    then show ?thesis by simp
  qed
qed

lemma route_characters_score:
  assumes "routed a m seen tbl"
    and "\<forall>c. count_list (seen @ cs) c \<le> sc"
    and "route_characters cs j a m tbl sc = Inr (Some (tbl', sc'))"
  shows "sc' = sc"
  using assms
proof (induction cs arbitrary: seen tbl j)
  case Nil
  then show ?case by simp
next
  case (Cons c cs)
  let ?slot = "unat (hash_function c a m)"
  have bound: "\<forall>x. count_list ((seen @ [c]) @ cs) x \<le> sc" using Cons.prems(2) by simp
  show ?case
  proof (cases "s_count (tbl ! ?slot) = 0")
    case True
    then have "route_characters cs (j + 1) a m (tbl[?slot := SLOT c 1]) sc = Inr (Some (tbl', sc'))"
      using Cons.prems(3) by (simp add: Let_def split: if_splits)
    moreover have "routed a m (seen @ [c]) (tbl[?slot := SLOT c 1])"
      using Cons.prems(1) True by (rule routed_step_new)
    ultimately show ?thesis using bound Cons.IH by blast
  next
    case False
    then have ch: "s_character (tbl ! ?slot) = c"
      using Cons.prems(3) by (simp add: Let_def split: if_splits)
    let ?n = "s_count (tbl ! ?slot) + 1"
    have "s_count (tbl ! ?slot) = count_list seen c"
      using Cons.prems(1) False ch by (rule routed_step_same)
    then have "?n \<le> count_list (seen @ c # cs) c" by simp
    then have "?n \<le> sc" using Cons.prems(2) le_trans by blast
    then have "route_characters cs (j + 1) a m (tbl[?slot := SLOT c ?n]) sc = Inr (Some (tbl', sc'))"
      using Cons.prems(3) False ch by (auto simp add: Let_def split: if_splits)
    moreover have "routed a m (seen @ [c]) (tbl[?slot := SLOT c ?n])"
      using Cons.prems(1) False ch by (rule routed_step_same)
    ultimately show ?thesis using bound Cons.IH by blast
  qed
qed

text \<open>
  An array of at most \<open>INT_MAX\<close> bytes is routed without overflow: the index stays
  below \<open>INT_MAX\<close> before every increment, and no count exceeds the index.
\<close>

lemma route_characters_no_overflow:
  assumes "routed a m seen tbl" and "j = length seen" and "int (j + length cs) \<le> INT_MAX"
  shows "route_characters cs j a m tbl sc \<noteq> Inl f"
  using assms
proof (induction cs arbitrary: seen tbl sc j)
  case Nil
  then show ?case by simp
next
  case (Cons c cs)
  let ?slot = "unat (hash_function c a m)"
  have j: "int j \<noteq> INT_MAX" "j + 1 = length (seen @ [c])" "int (j + 1 + length cs) \<le> INT_MAX"
    using Cons.prems(2,3) by simp_all
  show ?case
  proof (cases "s_count (tbl ! ?slot) = 0")
    case True
    have "routed a m (seen @ [c]) (tbl[?slot := SLOT c 1])"
      using Cons.prems(1) True by (rule routed_step_new)
    then have "route_characters cs (j + 1) a m (tbl[?slot := SLOT c 1]) sc \<noteq> Inl f"
      using j(2,3) by (rule Cons.IH)
    then show ?thesis using True j(1) by (simp add: Let_def)
  next
    case False
    show ?thesis
    proof (cases "s_character (tbl ! ?slot) = c")
      case ne: False
      then show ?thesis using False by (simp add: Let_def)
    next
      case ch: True
      let ?n = "s_count (tbl ! ?slot) + 1"
      have "s_count (tbl ! ?slot) = count_list seen c"
        using Cons.prems(1) False ch by (rule routed_step_same)
      then have "s_count (tbl ! ?slot) \<le> j"
        using count_le_length [of seen c] Cons.prems(2) by simp
      then have cnt: "int (s_count (tbl ! ?slot)) \<noteq> INT_MAX" using Cons.prems(3) by simp
      have "routed a m (seen @ [c]) (tbl[?slot := SLOT c ?n])"
        using Cons.prems(1) False ch by (rule routed_step_same)
      then have "route_characters cs (j + 1) a m (tbl[?slot := SLOT c ?n]) sc' \<noteq> Inl f" for sc'
        using j(2,3) by (rule Cons.IH)
      then show ?thesis using False ch cnt j(1) by (simp add: Let_def)
    qed
  qed
qed

lemma route_characters_injective:
  assumes "routed a m seen tbl"
    and "inj_on (\<lambda>c. hash_function c a m) (set (seen @ cs))"
  shows "route_characters cs j a m tbl sc \<noteq> Inr None"
  using assms
proof (induction cs arbitrary: seen tbl sc j)
  case Nil
  then show ?case by simp
next
  case (Cons c cs)
  let ?slot = "unat (hash_function c a m)"
  have inj: "inj_on (\<lambda>c. hash_function c a m) (set ((seen @ [c]) @ cs))" using Cons.prems(2) by simp
  have len: "length tbl = Suc (unat m)" using Cons.prems(1) by (simp add: routed_def)
  have hlt: "?slot < length tbl" using hash_function_le [of c a m] len by simp
  show ?case
  proof (cases "s_count (tbl ! ?slot) = 0")
    case True
    have "routed a m (seen @ [c]) (tbl[?slot := SLOT c 1])"
      using Cons.prems(1) True by (rule routed_step_new)
    then show ?thesis using True Cons.IH [OF _ inj] by (simp add: Let_def)
  next
    case False
    let ?x = "s_character (tbl ! ?slot)"
    have x: "?x \<in> set seen" "unat (hash_function ?x a m) = ?slot"
      using Cons.prems(1) False hlt by (simp_all add: routed_def)
    then have "hash_function ?x a m = hash_function c a m" by (simp add: word_unat_eq_iff)
    moreover have "?x \<in> set (seen @ c # cs)" "c \<in> set (seen @ c # cs)" using x(1) by simp_all
    ultimately have ch: "?x = c" using Cons.prems(2) by (meson inj_onD)
    let ?n = "s_count (tbl ! ?slot) + 1"
    have "routed a m (seen @ [c]) (tbl[?slot := SLOT c ?n])"
      using Cons.prems(1) False ch by (rule routed_step_same)
    then show ?thesis using False ch Cons.IH [OF _ inj] by (simp add: Let_def)
  qed
qed

lemma routed_inj_on:
  assumes "routed a m cs tbl"
  shows "inj_on (\<lambda>c. hash_function c a m) (set cs)"
proof (rule inj_onI)
  fix x y assume "x \<in> set cs" "y \<in> set cs" "hash_function x a m = hash_function y a m"
  then show "x = y" using assms unfolding routed_def by metis
qed

lemma route_initial_routed:
  "route_characters cs j a m (replicate (Suc (unat m)) (SLOT 0 0)) sc = Inr (Some (tbl, sc'))
   \<Longrightarrow> routed a m cs tbl"
  using route_characters_routed [OF routed_init, of cs j a m sc tbl sc'] by simp

lemma route_initial_score:
  "\<forall>c. count_list cs c \<le> sc \<Longrightarrow>
   route_characters cs j a m (replicate (Suc (unat m)) (SLOT 0 0)) sc = Inr (Some (tbl, sc'))
   \<Longrightarrow> sc' = sc"
  using route_characters_score [OF routed_init, of cs sc j a m tbl sc'] by simp

lemma route_initial_natural:
  assumes "m = 255"
  shows "route_characters cs j a m (replicate (Suc (unat m)) (SLOT 0 0)) sc \<noteq> Inr None"
proof (rule route_characters_injective [OF routed_init])
  show "inj_on (\<lambda>c. hash_function c a m) (set ([] @ cs))"
    using assms by (simp add: hash_function_def inj_on_def)
qed

lemma route_initial_no_overflow:
  "int (length cs) \<le> INT_MAX \<Longrightarrow>
   route_characters cs 0 a m (replicate (Suc (unat m)) (SLOT 0 0)) sc \<noteq> Inl f"
  using route_characters_no_overflow [OF routed_init, of 0 cs a m sc f] by simp

text \<open>What every recorded best candidate satisfies.\<close>

definition best_routed :: "byte list \<Rightarrow> best_hash \<Rightarrow> bool" where
  "best_routed cs best \<longleftrightarrow>
     (case best_slot_table best of
        None \<Rightarrow> True
      | Some tbl \<Rightarrow> routed (best_a best) (best_m best) cs tbl)"

lemma try_primes_routed:
  assumes "best_routed cs best"
    and "try_primes cs bps m ps best = Inr (Inl best') \<or> try_primes cs bps m ps best = Inr (Inr best')"
  shows "best_routed cs best'"
  using assms
proof (induction ps arbitrary: best)
  case Nil
  then show ?case by simp
next
  case (Cons a ps)
  show ?case
  proof (cases "route_characters cs 0 a m (replicate (Suc (unat m)) (SLOT 0 0)) bps")
    case (Inl f)
    then show ?thesis using Cons.prems(2) by simp
  next
    case (Inr routed_to)
    show ?thesis
    proof (cases routed_to)
      case None
      then show ?thesis using Cons Inr by simp
    next
      case (Some r)
      obtain tbl sc where r: "r = (tbl, sc)" by (cases r)
      let ?b = "if sc < best_score best
                then \<lparr>best_score = sc, best_a = a, best_m = m, best_slot_table = Some tbl\<rparr> else best"
      have "routed a m cs tbl" using Inr Some r route_initial_routed by blast
      then have b: "best_routed cs ?b" using Cons.prems(1) by (simp add: best_routed_def)
      show ?thesis
      proof (cases "best_score ?b = bps")
        case True
        then have "best' = ?b" using Cons.prems(2) Inr Some r by (simp add: Let_def)
        then show ?thesis using b by simp
      next
        case False
        then have "try_primes cs bps m ps ?b = Inr (Inl best') \<or> try_primes cs bps m ps ?b = Inr (Inr best')"
          using Cons.prems(2) Inr Some r by (simp add: Let_def)
        then show ?thesis using Cons.IH [OF b] by simp
      qed
    qed
  qed
qed

lemma find_hash_loop_routed:
  "best_routed cs best \<Longrightarrow> find_hash_loop cs bps n best = Inr best' \<Longrightarrow> best_routed cs best'"
proof (induction cs bps n best rule: find_hash_loop.induct)
  case (1 cs bps n best)
  show ?case
  proof (cases "try_primes cs bps (n + 1) primes best")
    case (Inl f)
    then show ?thesis using "1.prems"(2) by (subst (asm) find_hash_loop.simps) (simp add: Let_def)
  next
    case (Inr r)
    show ?thesis
    proof (cases r)
      case (Inl b)
      then have "best_routed cs b" using try_primes_routed [OF "1.prems"(1)] Inr by blast
      moreover have "best' = b"
        using "1.prems"(2) Inr Inl by (subst (asm) find_hash_loop.simps) (simp add: Let_def)
      ultimately show ?thesis by simp
    next
      case right: (Inr b)
      then have b: "best_routed cs b" using try_primes_routed [OF "1.prems"(1)] Inr by blast
      show ?thesis
      proof (cases "n + 1 < 255")
        case True
        then have "find_hash_loop cs bps (n + 1) b = Inr best'"
          using "1.prems"(2) Inr right by (subst (asm) find_hash_loop.simps) (simp add: Let_def)
        then show ?thesis using "1.IH" [OF refl _ _ True b] Inr right by simp
      next
        case False
        then have "best' = b"
          using "1.prems"(2) Inr right by (subst (asm) find_hash_loop.simps) (simp add: Let_def)
        then show ?thesis using b by simp
      qed
    qed
  qed
qed

lemma try_primes_first:
  assumes "\<forall>c. count_list cs c \<le> bps" and "bps < best_score best"
  shows "(try_primes cs bps m ps best = Inr (Inl b) \<longrightarrow>
            best_slot_table b \<noteq> None \<and> best_m b = m \<and> best_a b \<in> set ps \<and> best_score b = bps)
         \<and> (try_primes cs bps m ps best = Inr (Inr b) \<longrightarrow>
            b = best
            \<and> (\<forall>a \<in> set ps. route_characters cs 0 a m (replicate (Suc (unat m)) (SLOT 0 0)) bps
                                = Inr None))"
proof (induction ps)
  case Nil
  then show ?case by simp
next
  case (Cons a ps)
  show ?case
  proof (cases "route_characters cs 0 a m (replicate (Suc (unat m)) (SLOT 0 0)) bps")
    case (Inl f)
    then show ?thesis by simp
  next
    case (Inr routed_to)
    show ?thesis
    proof (cases routed_to)
      case None
      then show ?thesis using Cons Inr by simp
    next
      case (Some r)
      obtain tbl sc where r: "r = (tbl, sc)" by (cases r)
      have "sc = bps" using Inr Some r assms(1) route_initial_score by blast
      then show ?thesis using Inr Some r assms(2) by (auto simp add: Let_def)
    qed
  qed
qed

lemma try_primes_Inl:
  assumes "\<forall>c. count_list cs c \<le> bps" and "bps < best_score best"
    and "try_primes cs bps m ps best = Inr (Inl b)"
  shows "best_slot_table b \<noteq> None"
  using try_primes_first [OF assms(1,2), of m ps b] assms(3) by simp

lemma try_primes_Inr:
  assumes "\<forall>c. count_list cs c \<le> bps" and "bps < best_score best"
    and "try_primes cs bps m ps best = Inr (Inr b)" and "a \<in> set ps"
  shows "b = best"
    and "route_characters cs 0 a m (replicate (Suc (unat m)) (SLOT 0 0)) bps = Inr None"
  using try_primes_first [OF assms(1,2), of m ps b] assms(3,4) by simp_all

lemma try_primes_no_overflow:
  "int (length cs) \<le> INT_MAX \<Longrightarrow> try_primes cs bps m ps best \<noteq> Inl f"
proof (induction ps arbitrary: best)
  case Nil
  then show ?case by simp
next
  case (Cons a ps)
  show ?case
  proof (cases "route_characters cs 0 a m (replicate (Suc (unat m)) (SLOT 0 0)) bps")
    case (Inl f')
    then show ?thesis using route_initial_no_overflow [OF Cons.prems] by blast
  next
    case (Inr routed_to)
    show ?thesis
    proof (cases routed_to)
      case None
      then show ?thesis using Cons Inr by simp
    next
      case (Some r)
      obtain tbl sc where r: "r = (tbl, sc)" by (cases r)
      show ?thesis using Cons Inr Some r by (simp add: Let_def)
    qed
  qed
qed

lemma byte_not_less_255: "\<not> (x :: byte) < 255 \<Longrightarrow> x = 255"
proof -
  assume "\<not> x < 255"
  then have "255 \<le> unat x" by (simp add: word_less_nat_alt)
  then have "unat x = unat (255 :: byte)" using unat_byte_lt [of x] by simp
  then show ?thesis by (simp only: word_unat_eq_iff)
qed

lemma find_hash_loop_found:
  "\<forall>c. count_list cs c \<le> bps \<Longrightarrow> bps < best_score best \<Longrightarrow> int (length cs) \<le> INT_MAX \<Longrightarrow>
   \<exists>b. find_hash_loop cs bps n best = Inr b \<and> best_slot_table b \<noteq> None"
proof (induction cs bps n best rule: find_hash_loop.induct)
  case (1 cs bps n best)
  show ?case
  proof (cases "try_primes cs bps (n + 1) primes best")
    case (Inl f)
    then show ?thesis using try_primes_no_overflow [OF "1.prems"(3)] by blast
  next
    case (Inr r)
    show ?thesis
    proof (cases r)
      case (Inl b)
      then have t: "try_primes cs bps (n + 1) primes best = Inr (Inl b)" using Inr by simp
      have "best_slot_table b \<noteq> None" using "1.prems"(1,2) t by (rule try_primes_Inl)
      then show ?thesis using t by (subst find_hash_loop.simps) (simp add: Let_def)
    next
      case right: (Inr b)
      then have t: "try_primes cs bps (n + 1) primes best = Inr (Inr b)" using Inr by simp
      have two: "(2 :: byte) \<in> set primes" by (simp add: primes_def)
      have b: "b = best" using "1.prems"(1,2) t two by (rule try_primes_Inr)
      have none: "route_characters cs 0 2 (n + 1) (replicate (Suc (unat (n + 1))) (SLOT 0 0)) bps = Inr None"
        using "1.prems"(1,2) t two by (rule try_primes_Inr)
      show ?thesis
      proof (cases "n + 1 < 255")
        case True
        have "\<exists>b'. find_hash_loop cs bps (n + 1) b = Inr b' \<and> best_slot_table b' \<noteq> None"
          using "1.prems" unfolding b [symmetric] by (intro "1.IH" [OF refl Inr right True])
        then show ?thesis using t True by (subst find_hash_loop.simps) (simp add: Let_def)
      next
        case False
        then have "n + 1 = 255" by (rule byte_not_less_255)
        then have "route_characters cs 0 2 (n + 1) (replicate (Suc (unat (n + 1))) (SLOT 0 0)) bps \<noteq> Inr None"
          by (rule route_initial_natural)
        then show ?thesis using none by simp
      qed
    qed
  qed
qed

text \<open>
  For an array of at most \<open>INT_MAX\<close> bytes and a score that bounds every multiplicity,
  the search returns a node.
\<close>

lemma find_best_hash_total:
  assumes "\<forall>c. count_list cs c \<le> bps" and "bps \<le> length cs" and "int (length cs) \<le> INT_MAX"
  shows "\<exists>node. find_best_hash cs bps u = Inr node"
proof -
  let ?init = "\<lparr>best_score = length cs + 1, best_a = 0, best_m = 0, best_slot_table = None\<rparr>"
  have "bps < best_score ?init" using assms(2) by simp
  then obtain b where "find_hash_loop cs bps (of_nat u - 1) ?init = Inr b" "best_slot_table b \<noteq> None"
    using assms(1,3) find_hash_loop_found by blast
  then show ?thesis by (auto simp: find_best_hash_def)
qed

lemma find_best_hash_routed:
  assumes "find_best_hash cs bps u = Inr node"
  shows "\<exists>tbl. routed (node_prime node) (node_num_slots node) cs tbl
               \<and> node_slot node = map make_slot tbl \<and> node_column node = 0"
proof -
  let ?init = "\<lparr>best_score = length cs + 1, best_a = 0, best_m = 0, best_slot_table = None\<rparr>"
  obtain b where b: "find_hash_loop cs bps (of_nat u - 1) ?init = Inr b"
    using assms by (auto simp: find_best_hash_def split: sum.splits)
  have "best_routed cs ?init" by (simp add: best_routed_def)
  then have r: "best_routed cs b" using b by (rule find_hash_loop_routed)
  obtain tbl where tbl: "best_slot_table b = Some tbl"
    using assms b by (auto simp: find_best_hash_def split: option.splits)
  then have rt: "routed (best_a b) (best_m b) cs tbl" using r by (simp add: best_routed_def)
  then have len: "length tbl = Suc (unat (best_m b))" by (simp add: routed_def)
  have "node = HashNode 0 (best_a b) (best_m b) (map make_slot (take (Suc (unat (best_m b))) tbl))"
    using assms b tbl by (simp add: find_best_hash_def)
  then show ?thesis using rt len by auto
qed

text \<open>The slots of a node fresh from \<open>find_best_hash\<close>.\<close>

lemma find_best_hash_slots:
  assumes "find_best_hash cs bps u = Inr node"
  shows "length (node_slot node) = Suc (unat (node_num_slots node))"
    and "inj_on (\<lambda>c. hash_function c (node_prime node) (node_num_slots node)) (set cs)"
    and "\<And>c. c \<in> set cs \<Longrightarrow>
           slot_character (node_slot node ! unat (hash_function c (node_prime node) (node_num_slots node))) = c
           \<and> slot_count (node_slot node ! unat (hash_function c (node_prime node) (node_num_slots node)))
               = count_list cs c"
    and "\<And>j. j < length (node_slot node) \<Longrightarrow> slot_count (node_slot node ! j) > 0 \<Longrightarrow>
           slot_character (node_slot node ! j) \<in> set cs
           \<and> unat (hash_function (slot_character (node_slot node ! j)) (node_prime node) (node_num_slots node)) = j
           \<and> slot_count (node_slot node ! j) = count_list cs (slot_character (node_slot node ! j))"
    and "\<And>j. j < length (node_slot node) \<Longrightarrow> slot_next_node (node_slot node ! j) = NullPtr"
proof -
  obtain tbl where rt: "routed (node_prime node) (node_num_slots node) cs tbl"
    and sl: "node_slot node = map make_slot tbl"
    using find_best_hash_routed [OF assms] by blast
  let ?h = "\<lambda>c. unat (hash_function c (node_prime node) (node_num_slots node))"
  have len: "length tbl = Suc (unat (node_num_slots node))" using rt by (simp add: routed_def)
  then show "length (node_slot node) = Suc (unat (node_num_slots node))" using sl by simp
  show "inj_on (\<lambda>c. hash_function c (node_prime node) (node_num_slots node)) (set cs)"
    using rt by (rule routed_inj_on)
  have hlt: "\<And>c. ?h c < length tbl"
    using hash_function_le [of _ "node_prime node" "node_num_slots node"] len by (simp add: less_Suc_eq_le)
  show c: "\<And>c. c \<in> set cs \<Longrightarrow>
           slot_character (node_slot node ! ?h c) = c \<and> slot_count (node_slot node ! ?h c) = count_list cs c"
  proof -
    fix c assume c: "c \<in> set cs"
    then have "s_character (tbl ! ?h c) = c" "s_count (tbl ! ?h c) = count_list cs c"
      using rt by (simp_all add: routed_def)
    moreover have "0 < count_list cs c" using c by (simp add: count_list_pos)
    ultimately show "slot_character (node_slot node ! ?h c) = c \<and> slot_count (node_slot node ! ?h c) = count_list cs c"
      using hlt [of c] by (simp add: sl make_slot_def)
  qed
  show "\<And>j. j < length (node_slot node) \<Longrightarrow> slot_count (node_slot node ! j) > 0 \<Longrightarrow>
           slot_character (node_slot node ! j) \<in> set cs
           \<and> ?h (slot_character (node_slot node ! j)) = j
           \<and> slot_count (node_slot node ! j) = count_list cs (slot_character (node_slot node ! j))"
  proof -
    fix j assume j: "j < length (node_slot node)" "slot_count (node_slot node ! j) > 0"
    then have pos: "s_count (tbl ! j) > 0" by (auto simp: sl make_slot_def split: if_splits)
    then have eq: "slot_character (node_slot node ! j) = s_character (tbl ! j)"
      using j by (simp add: sl make_slot_def)
    have m: "s_character (tbl ! j) \<in> set cs" "?h (s_character (tbl ! j)) = j"
      using rt pos j by (simp_all add: routed_def sl)
    then show "slot_character (node_slot node ! j) \<in> set cs
           \<and> ?h (slot_character (node_slot node ! j)) = j
           \<and> slot_count (node_slot node ! j) = count_list cs (slot_character (node_slot node ! j))"
      using c [OF m(1)] eq by simp
  qed
  show "\<And>j. j < length (node_slot node) \<Longrightarrow> slot_next_node (node_slot node ! j) = NullPtr"
    by (simp add: sl make_slot_def)
qed

section \<open>Facts about the column survey\<close>

definition survey_ok :: "BinaryValue list \<Rightarrow> survey \<Rightarrow> bool" where
  "survey_ok vs best \<longleftrightarrow>
     best_column_chars best = column_bytes (best_column best) vs
     \<and> (best_unique_chars best, best_num_slots best)
         = calculate_character_distribution (best_column_chars best)"

lemma length_column_bytes [simp]: "length (column_bytes c vs) = length vs"
  by (simp add: column_bytes_def)

lemma survey_step_ok:
  assumes "survey_ok vs best \<or> length vs < best_num_slots best"
    and "calculate_character_distribution (column_bytes c vs) = (u, mo)"
  shows "survey_ok vs (if mo < best_num_slots best
                       then \<lparr>best_column = c, best_num_slots = mo, best_unique_chars = u,
                             best_column_chars = column_bytes c vs\<rparr>
                       else best)"
proof (cases "mo < best_num_slots best")
  case True
  then show ?thesis using assms(2) by (simp add: survey_ok_def)
next
  case False
  have "mo \<le> length vs"
    using distribution_snd_le_length [of "column_bytes c vs"] assms(2) by simp
  then show ?thesis using False assms(1) by auto
qed

lemma survey_columns_ok:
  "survey_ok vs best \<or> length vs < best_num_slots best \<Longrightarrow>
   survey_columns vs c best = Inr s \<Longrightarrow> survey_ok vs s"
proof (induction vs c best rule: survey_columns.induct)
  case (1 vs c best)
  obtain u mo where d: "calculate_character_distribution (column_bytes c vs) = (u, mo)"
    by (cases "calculate_character_distribution (column_bytes c vs)")
  let ?b = "if mo < best_num_slots best
            then \<lparr>best_column = c, best_num_slots = mo, best_unique_chars = u,
                  best_column_chars = column_bytes c vs\<rparr>
            else best"
  have ok: "survey_ok vs ?b" using "1.prems"(1) d by (rule survey_step_ok)
  have c: "int c \<noteq> INT_MAX"
    using "1.prems"(2) by (subst (asm) survey_columns.simps) (auto simp: Let_def split: if_splits)
  show ?case
  proof (cases "list_all (\<lambda>v. \<not> length (binary v) > c) vs")
    case True
    then have "s = ?b"
      using "1.prems"(2) d c by (subst (asm) survey_columns.simps) (simp add: Let_def)
    then show ?thesis using ok by simp
  next
    case False
    then have "survey_columns vs (c + 1) ?b = Inr s"
      using "1.prems"(2) d c by (subst (asm) survey_columns.simps) (simp add: Let_def)
    then show ?thesis
      using "1.IH" [OF refl refl d [symmetric] refl refl c False] ok by simp
  qed
qed

text \<open>Keys shorter than \<open>INT_MAX\<close> bytes are surveyed without overflow.\<close>

lemma survey_columns_total:
  "int (max_length vs) < INT_MAX \<Longrightarrow> c \<le> max_length vs \<Longrightarrow> \<exists>s. survey_columns vs c best = Inr s"
proof (induction vs c best rule: survey_columns.induct)
  case (1 vs c best)
  obtain u mo where d: "calculate_character_distribution (column_bytes c vs) = (u, mo)"
    by (cases "calculate_character_distribution (column_bytes c vs)")
  let ?b = "if mo < best_num_slots best
            then \<lparr>best_column = c, best_num_slots = mo, best_unique_chars = u,
                  best_column_chars = column_bytes c vs\<rparr>
            else best"
  have c: "int c \<noteq> INT_MAX" using "1.prems" by simp
  show ?case
  proof (cases "list_all (\<lambda>v. \<not> length (binary v) > c) vs")
    case True
    then show ?thesis using d c by (subst survey_columns.simps) (simp add: Let_def)
  next
    case False
    then obtain v where "v \<in> set vs" "c < length (binary v)" by (auto simp: list_all_iff)
    then have "c + 1 \<le> max_length vs" using max_length_ge [of v vs] by simp
    then have "\<exists>s. survey_columns vs (c + 1) ?b = Inr s"
      using "1.IH" [OF refl refl d [symmetric] refl refl c False "1.prems"(1)] by simp
    then show ?thesis using False d c by (subst survey_columns.simps) (simp add: Let_def)
  qed
qed

section \<open>The groups handed to the recursive calls\<close>

definition slot_keys :: "HashNode \<Rightarrow> (byte \<times> nat) list" where
  "slot_keys node = map (\<lambda>s. (slot_character s, slot_count s)) (node_slot node)"

lemma slot_keys_set_slot:
  assumes "i < length (node_slot node)"
    and "slot_character s = slot_character (node_slot node ! i)"
    and "slot_count s = slot_count (node_slot node ! i)"
  shows "slot_keys (set_slot node i s) = slot_keys node"
  using assms by (simp add: slot_keys_def set_slot_def map_update list_update_same_conv)

lemma node_column_set_slot [simp]: "node_column (set_slot node i s) = node_column node"
  by (simp add: set_slot_def)

lemma slot_keys_nth:
  assumes "slot_keys node = slot_keys node'" and "i < length (node_slot node)"
  shows "node_slot node' ! i \<in> set (node_slot node')"
    and "slot_character (node_slot node' ! i) = slot_character (node_slot node ! i)"
    and "slot_count (node_slot node' ! i) = slot_count (node_slot node ! i)"
proof -
  have len: "length (node_slot node') = length (node_slot node)"
    using assms(1) unfolding slot_keys_def by (metis length_map)
  then show "node_slot node' ! i \<in> set (node_slot node')" using assms(2) by simp
  have "slot_keys node ! i = slot_keys node' ! i" using assms(1) by simp
  then have "(slot_character (node_slot node ! i), slot_count (node_slot node ! i))
             = (slot_character (node_slot node' ! i), slot_count (node_slot node' ! i))"
    using assms(2) len by (simp add: slot_keys_def)
  then show "slot_character (node_slot node' ! i) = slot_character (node_slot node ! i)"
    and "slot_count (node_slot node' ! i) = slot_count (node_slot node ! i)" by simp_all
qed

lemma populate_slots_cong_aux:
  assumes rec: "\<And>grouped hh s. s \<in> set (node_slot node') \<Longrightarrow> slot_count s \<noteq> 0 \<Longrightarrow> slot_count s \<noteq> 1 \<Longrightarrow>
            gather (node_column node') (slot_character s) vs = Inr grouped \<Longrightarrow>
            length grouped \<le> slot_count s \<Longrightarrow> f grouped hh = g grouped hh"
  shows "slot_keys node = slot_keys node' \<Longrightarrow> node_column node = node_column node' \<Longrightarrow>
         populate_slots f vs idxs node h = populate_slots g vs idxs node h"
proof (induction idxs arbitrary: node h)
  case Nil
  then show ?case by simp
next
  case (Cons i idxs)
  show ?case
  proof (cases "i \<ge> length (node_slot node)")
    case True
    then show ?thesis by simp
  next
    case False
    then have i: "i < length (node_slot node)" by simp
    let ?s = "node_slot node ! i"
    note nth = slot_keys_nth [OF Cons.prems(1) i]
    have keep: "\<And>nx p. slot_keys (set_slot node i (HashSlot (slot_character ?s) (slot_count ?s) nx p)) = slot_keys node'"
      using slot_keys_set_slot [OF i] Cons.prems(1) by simp
    have next_eq: "\<And>nx p hh. populate_slots f vs idxs (set_slot node i (HashSlot (slot_character ?s) (slot_count ?s) nx p)) hh
            = populate_slots g vs idxs (set_slot node i (HashSlot (slot_character ?s) (slot_count ?s) nx p)) hh"
      using Cons.IH [OF keep] Cons.prems(2) by simp
    show ?thesis
    proof (cases "slot_count ?s = 0 \<or> slot_count ?s = 1")
      case True
      then show ?thesis using i next_eq by (auto simp: Let_def split: option.splits)
    next
      case big: False
      show ?thesis
      proof (cases "gather (node_column node) (slot_character ?s) vs")
        case (Inl e)
        then show ?thesis using i big by (simp add: Let_def)
      next
        case (Inr grouped)
        show ?thesis
        proof (cases "length grouped > slot_count ?s")
          case True
          then show ?thesis using i big Inr by (simp add: Let_def)
        next
          case False
          have "f grouped hh = g grouped hh" for hh
            using rec [OF nth(1), of grouped hh] nth(2,3) big Inr False Cons.prems(2) by simp
          then show ?thesis using i big Inr False next_eq
            by (simp add: Let_def split: sum.splits option.splits prod.splits)
        qed
      qed
    qed
  qed
qed

lemma populate_slots_cong [fundef_cong]:
  assumes "vs = vs'" and "idxs = idxs'" and "node = node'" and "h = h'"
    and "\<And>grouped hh s. s \<in> set (node_slot node') \<Longrightarrow> slot_count s \<noteq> 0 \<Longrightarrow> slot_count s \<noteq> 1 \<Longrightarrow>
            gather (node_column node') (slot_character s) vs' = Inr grouped \<Longrightarrow>
            length grouped \<le> slot_count s \<Longrightarrow> f grouped hh = g grouped hh"
  shows "populate_slots f vs idxs node h = populate_slots g vs' idxs' node' h'"
  unfolding assms(1-4)
  by (rule populate_slots_cong_aux [OF assms(5)]) simp_all

lemma count_list_full: "count_list xs x = length xs \<Longrightarrow> set xs \<subseteq> {x}"
proof (induction xs)
  case Nil
  then show ?case by simp
next
  case (Cons y ys)
  have le: "count_list ys x \<le> length ys" by (rule count_le_length)
  show ?case
  proof (cases "y = x")
    case True
    then show ?thesis using Cons by simp
  next
    case False
    then show ?thesis using Cons.prems le by simp
  qed
qed

lemma column_survey_ok:
  assumes "column_survey entries = Inr best"
  shows "survey_ok (map fst entries) best"
proof (rule survey_columns_ok)
  show "survey_columns (map fst entries) 0
          \<lparr>best_column = 0, best_num_slots = length entries + 1,
           best_unique_chars = 0, best_column_chars = []\<rparr> = Inr best"
    using assms by (simp add: column_survey_def)
qed simp

lemma column_survey_chars:
  "column_survey entries = Inr best \<Longrightarrow>
   best_column_chars best = column_bytes (best_column best) (map fst entries)"
  using column_survey_ok [of entries best] by (simp add: survey_ok_def)

lemma column_survey_length:
  "column_survey entries = Inr best \<Longrightarrow> length (best_column_chars best) = length entries"
  by (simp add: column_survey_chars)

lemma column_survey_unique:
  assumes "column_survey entries = Inr best"
  shows "best_unique_chars best = card (set (best_column_chars best))"
proof -
  have "best_unique_chars best = fst (calculate_character_distribution (best_column_chars best))"
    using column_survey_ok [OF assms] unfolding survey_ok_def by (metis fst_conv)
  then show ?thesis by (simp add: distribution_fst)
qed

lemma column_survey_num_slots:
  "column_survey entries = Inr best \<Longrightarrow>
   best_num_slots best = snd (calculate_character_distribution (best_column_chars best))"
  using column_survey_ok [of entries best] unfolding survey_ok_def by (metis snd_conv)

lemma column_survey_total:
  "int (max_length (map fst entries)) < INT_MAX \<Longrightarrow> \<exists>best. column_survey entries = Inr best"
  unfolding column_survey_def by (rule survey_columns_total) simp_all

lemma node_slot_set_column [simp]: "node_slot (set_column node c) = node_slot node"
  by (simp add: set_column_def)

lemma group_smaller:
  assumes best: "column_survey entries = Inr best"
    and nodup: "\<not> (best_unique_chars best = 1 \<and> 1 < length entries)"
    and node: "find_best_hash (best_column_chars best) (best_num_slots best)
                 (best_unique_chars best) = Inr node"
    and s: "s \<in> set (node_slot node)" "slot_count s \<noteq> 0" "slot_count s \<noteq> 1"
  shows "slot_count s < length entries"
proof -
  let ?cs = "best_column_chars best"
  have len: "length ?cs = length entries" using best by (rule column_survey_length)
  have uniq: "best_unique_chars best = card (set ?cs)"
    using best by (rule column_survey_unique)
  obtain j where j: "j < length (node_slot node)" "node_slot node ! j = s"
    using s(1) by (auto simp: in_set_conv_nth)
  have cnt: "slot_count s = count_list ?cs (slot_character s)"
    using find_best_hash_slots(4) [OF node j(1)] s(2) j(2) by simp
  show ?thesis
  proof (rule ccontr)
    assume "\<not> slot_count s < length entries"
    then have full: "count_list ?cs (slot_character s) = length ?cs"
      using cnt len count_le_length [of ?cs "slot_character s"] by simp
    then have sub: "set ?cs \<subseteq> {slot_character s}" by (rule count_list_full)
    have "slot_count s = length ?cs" using full cnt by simp
    then have two: "2 \<le> length ?cs" using s(2,3) by arith
    then have "?cs \<noteq> []" by (metis length_0_conv not_numeral_le_zero)
    then have "set ?cs \<noteq> {}" by simp
    then have "set ?cs = {slot_character s}" using sub by (simp add: subset_singleton_iff)
    moreover have "1 < length entries" using two len by simp
    ultimately have "best_unique_chars best = 1 \<and> 1 < length entries"
      using uniq by simp
    then show False using nodup by simp
  qed
qed

text \<open>
  \<open>create_binary_hash\<close>. The heap records the \<open>malloc\<close> and \<open>free\<close> calls in the
  order of the source; the node allocated inside \<open>find_best_hash\<close> is recorded at the
  call.
\<close>

function create_binary_hash :: "entries \<Rightarrow> heap \<Rightarrow> build" where
  "create_binary_hash values h =
     (if length values < 1 then Inr (None, h)
      else let h1 = malloc_buffer (malloc_buffer h)
           in case column_survey values of
                Inl f \<Rightarrow> Inl f
              | Inr best \<Rightarrow>
                  (let h2 = free_buffer h1
                   in if best_unique_chars best = 1 \<and> length values > 1 then Inr (None, h2)
                      else case find_best_hash (best_column_chars best) (best_num_slots best)
                                  (best_unique_chars best) of
                             Inl f \<Rightarrow> Inl f
                           | Inr node0 \<Rightarrow>
                               (let node = set_column node0 (best_column best)
                                in case populate_slots create_binary_hash values
                                          [0..<Suc (unat (node_num_slots node))] node
                                          (malloc_node h2) of
                                     Inl f \<Rightarrow> Inl f
                                   | Inr (None, h3) \<Rightarrow> Inr (None, h3)
                                   | Inr (Some root, h3) \<Rightarrow> Inr (Some root, free_buffer h3))))"
  by pat_completeness auto
termination
proof (relation "measure (\<lambda>(vs, h). length vs)")
  show "wf (measure (\<lambda>(vs, h). length vs))" by simp
next
  fix vs :: entries and h h1 h2 hh :: heap and best :: survey and node0 node :: HashNode
    and grouped :: entries and s :: HashSlot
  assume "column_survey vs = Inr best"
    and "\<not> (best_unique_chars best = 1 \<and> 1 < length vs)"
    and "find_best_hash (best_column_chars best) (best_num_slots best) (best_unique_chars best) = Inr node0"
    and "node = set_column node0 (best_column best)"
    and "s \<in> set (node_slot node)" and "slot_count s \<noteq> 0" and "slot_count s \<noteq> 1"
    and "length grouped \<le> slot_count s"
  then have "slot_count s < length vs" using group_smaller [of vs best node0 s] by simp
  with \<open>length grouped \<le> slot_count s\<close>
  show "((grouped, hh), (vs, h)) \<in> measure (\<lambda>(vs, h). length vs)" by simp
qed

declare create_binary_hash.simps [simp del]

section \<open>Notions used in the claims\<close>

text \<open>
  The payload of the last occurrence of a byte in input order, in the specification's
  words.
\<close>

fun last_payload :: "(byte \<times> Payload) list \<Rightarrow> byte \<Rightarrow> Payload option" where
  "last_payload [] b = None"
| "last_payload (entry # rest) b =
     (case last_payload rest b of
        Some p \<Rightarrow> Some p
      | None \<Rightarrow> if fst entry = b then Some (snd entry) else None)"

text \<open>The byte a key shows at a column under the virtual padding rule.\<close>

definition key_byte :: "nat \<Rightarrow> BinaryValue \<Rightarrow> byte" where
  "key_byte col v = (if col < length (binary v) then binary v ! col else 0)"

text \<open>
  The duplicate test of line 368 on the result of the survey, and the node
  \<open>find_best_hash\<close> returns for the best column.
\<close>

definition duplicate_signal :: "survey \<Rightarrow> entries \<Rightarrow> bool" where
  "duplicate_signal best entries \<longleftrightarrow> best_unique_chars best = 1 \<and> 1 < length entries"

definition best_node :: "survey \<Rightarrow> fault + HashNode" where
  "best_node best =
     find_best_hash (best_column_chars best) (best_num_slots best) (best_unique_chars best)"

text \<open>What the loop over the slots has made of a slot it has passed.\<close>

definition slot_built ::
  "(entries \<Rightarrow> heap \<Rightarrow> build) \<Rightarrow> entries \<Rightarrow> nat \<Rightarrow> HashSlot \<Rightarrow> HashSlot \<Rightarrow> bool" where
  "slot_built f vs col s s' \<longleftrightarrow>
     slot_character s' = slot_character s \<and> slot_count s' = slot_count s
     \<and> (if slot_count s = 0 then slot_next_node s' = NullPtr
        else if slot_count s = 1
        then (\<exists>v p. find_binary col (slot_character s) vs = Some (v, p)
                   \<and> slot_next_node s' = Binary v \<and> slot_payload s' = p)
        else (\<exists>grouped child hx hy.
                gather col (slot_character s) vs = Inr grouped
                \<and> length grouped \<le> slot_count s
                \<and> f grouped hx = Inr (Some child, hy)
                \<and> slot_next_node s' = Child child))"

text \<open>
  What the payload loop of \<open>create_character_hash\<close> has done to a node after the
  entries \<open>es\<close>, for the bytes of \<open>S\<close>.
\<close>

definition payloads_set ::
  "byte \<Rightarrow> byte \<Rightarrow> byte set \<Rightarrow> (byte \<times> Payload) list \<Rightarrow> HashNode \<Rightarrow> HashNode \<Rightarrow> bool" where
  "payloads_set a m S es node node' \<longleftrightarrow>
     node_prime node' = a \<and> node_num_slots node' = m
     \<and> length (node_slot node') = length (node_slot node)
     \<and> (\<forall>j < length (node_slot node).
           slot_character (node_slot node' ! j) = slot_character (node_slot node ! j)
           \<and> slot_count (node_slot node' ! j) = slot_count (node_slot node ! j)
           \<and> slot_next_node (node_slot node' ! j) = slot_next_node (node_slot node ! j))
     \<and> (\<forall>b \<in> S. slot_payload (node_slot node' ! unat (hash_function b a m))
           = (case last_payload es b of
                Some p \<Rightarrow> p
              | None \<Rightarrow> slot_payload (node_slot node ! unat (hash_function b a m))))"

text \<open>The number of columns on which the keys do not all show the same byte.\<close>

definition varying :: "BinaryValue list \<Rightarrow> nat" where
  "varying vs = card {c. c < max_length vs \<and> 1 < card (set (column_bytes c vs))}"

text \<open>
  A slot on which \<open>hash_efficiency\<close> reports every slot of the subtree as used, the
  empty ones as empty and the depth as the number of comparisons.
\<close>

definition slot_measured :: "HashSlot \<Rightarrow> bool" where
  "slot_measured s \<longleftrightarrow>
     (if slot_count s = 0 \<or> slot_count s = 1
      then (\<forall>child. slot_next_node s \<noteq> Child child)
      else (\<exists>child. slot_next_node s = Child child
              \<and> hash_efficiency child
                  = Inr (occupied_slots child + vacant_slots child, vacant_slots child, tree_depth child)))"

section \<open>The byte-hash kernel\<close>

text \<open>
  C6. For every byte \<open>b\<close>, multiplier \<open>a\<close> and zero-based slot count \<open>m\<close>, the kernel
  returns \<open>b\<close> when \<open>m = 255\<close> and otherwise \<open>(((a - 1) XOR b) * a) mod (m + 1)\<close>; the
  32-bit product of the code is the exact product, which is not negative and fits in
  16 bits, so nothing overflows before the modulus.
\<close>

theorem hash_function_spec:
  "hash_function b a m =
     (if m = 255 then b
      else word_of_int ((((uint a - 1) XOR uint b) * uint a) mod (uint m + 1)))
   \<and> sint (hash_product b a) = ((uint a - 1) XOR uint b) * uint a
   \<and> 0 \<le> ((uint a - 1) XOR uint b) * uint a
   \<and> ((uint a - 1) XOR uint b) * uint a < 2 ^ 16"
proof -
  let ?n = "((unat a - 1) XOR unat b) * unat a"
  let ?i = "((uint a - 1) XOR uint b) * uint a"
  have i: "int ?n = ?i" by (rule hash_product_int)
  have lt: "?n < 65536" by (rule hash_product_lt_aux)
  have s: "sint (hash_product b a) = ?i"
    using sint_small [of "hash_product b a"] lt i by (simp only: hash_product_unat)
  have nonneg: "0 \<le> ?i" unfolding i [symmetric] by (rule of_nat_0_le_iff)
  have "int ?n < int 65536" using lt by (simp only: of_nat_less_iff)
  then have small: "?i < 2 ^ 16" unfolding i by simp
  have h: "hash_function b a m = (if m = 255 then b else word_of_int (?i mod (uint m + 1)))"
  proof (cases "m = 255")
    case True
    then show ?thesis by (simp add: hash_function_def)
  next
    case False
    have "int (?n mod (unat m + 1)) = ?i mod (uint m + 1)"
      by (simp only: zmod_int i) (simp add: add.commute)
    then have "word_of_int (?i mod (uint m + 1)) = (word_of_nat (?n mod (unat m + 1)) :: byte)"
      by (metis of_int_of_nat_eq)
    moreover have "hash_function b a m = word_of_nat (unat (hash_function b a m))"
      by simp
    ultimately show ?thesis
      using False by (simp only: hash_function_unat if_False)
  qed
  from h s nonneg small show ?thesis by blast
qed

section \<open>The perfect-hash selector\<close>

text \<open>
  C5. For every byte array of at most \<open>INT_MAX\<close> bytes (the index and the occurrence
  counts of the search are \<open>int\<close>), \<open>find_best_hash\<close>, called as its callers do with
  the distribution of the array, returns a node (the search ends, never overflows and
  never reads an unwritten table), and the node's prime and slot count send any two
  distinct bytes of the array to different slots. The 256-slot natural hash is
  injective, which is why the search cannot come back empty.
\<close>

theorem find_best_hash_perfect:
  assumes "int (length cs) \<le> INT_MAX"
  shows "\<exists>node. find_best_hash cs (snd (calculate_character_distribution cs))
                 (fst (calculate_character_distribution cs)) = Inr node
          \<and> inj_on (\<lambda>c. hash_function c (node_prime node) (node_num_slots node)) (set cs)
          \<and> inj (\<lambda>c. hash_function c a 255)"
proof -
  let ?bps = "snd (calculate_character_distribution cs)"
  let ?u = "fst (calculate_character_distribution cs)"
  have "\<forall>c. count_list cs c \<le> ?bps" by (simp add: distribution_snd_upper)
  moreover have "?bps \<le> length cs" by (rule distribution_snd_le_length)
  ultimately obtain node where node: "find_best_hash cs ?bps ?u = Inr node"
    using find_best_hash_total assms by blast
  then have "inj_on (\<lambda>c. hash_function c (node_prime node) (node_num_slots node)) (set cs)"
    by (rule find_best_hash_slots(2))
  moreover have "inj (\<lambda>c. hash_function c a 255)"
    by (simp add: hash_function_def inj_on_def)
  ultimately show ?thesis using node by blast
qed

theorem find_best_hash_perfect_witness:
  "int (length [97, 98, 97, 99 :: byte]) \<le> INT_MAX
   \<and> (\<exists>node. find_best_hash [97, 98, 97, 99]
                   (snd (calculate_character_distribution [97, 98, 97, 99]))
                   (fst (calculate_character_distribution [97, 98, 97, 99])) = Inr node
          \<and> inj_on (\<lambda>c. hash_function c (node_prime node) (node_num_slots node))
                (set [97, 98, 97, 99])
          \<and> inj (\<lambda>c. hash_function c 2 255))"
proof -
  have len: "int (length [97, 98, 97, 99 :: byte]) \<le> INT_MAX" by (simp add: INT_MAX_def)
  from len find_best_hash_perfect [OF len, of 2] show ?thesis by (rule conjI)
qed

text \<open>
  C3, at the one-byte array \<open>[5]\<close>. The array has one distinct byte, and with one
  slot (zero-based count 0) the first prime routes it with no false positive. The search
  increments \<open>num_slots\<close> before the first candidate, so it never tries that table and
  returns a node with two slots.
\<close>

theorem find_best_hash_skips_smallest_table:
  "calculate_character_distribution [5] = (1, 1)
   \<and> route_characters [5] 0 2 0 [SLOT 0 0] 1 = Inr (Some ([SLOT 5 1], 1))
   \<and> find_best_hash [5] 1 1
       = Inr (HashNode 0 2 1 [HashSlot 5 1 NullPtr 0, HashSlot 0 0 NullPtr 0])"
  by code_simp

text \<open>
  The search never tries a table below \<open>min_unique_chars\<close> (zero-based, modulo 256):
  for 1 to 255 distinct bytes the node has at least one slot more than distinct bytes.
\<close>

lemma try_primes_best_m:
  assumes "try_primes cs bps m ps best = Inr (Inl best') \<or> try_primes cs bps m ps best = Inr (Inr best')"
    and "best_slot_table best' \<noteq> None"
  shows "best_m best' = m \<or> (best_slot_table best \<noteq> None \<and> best_m best' = best_m best)"
  using assms
proof (induction ps arbitrary: best)
  case Nil
  then show ?case by auto
next
  case (Cons a ps)
  show ?case
  proof (cases "route_characters cs 0 a m (replicate (Suc (unat m)) (SLOT 0 0)) bps")
    case (Inl f)
    then show ?thesis using Cons.prems(1) by simp
  next
    case (Inr routed_to)
    show ?thesis
    proof (cases routed_to)
      case None
      then show ?thesis using Cons Inr by simp
    next
      case (Some r)
      obtain tbl sc where r: "r = (tbl, sc)" by (cases r)
      let ?b = "if sc < best_score best
                then \<lparr>best_score = sc, best_a = a, best_m = m, best_slot_table = Some tbl\<rparr> else best"
      have b: "best_m ?b = m \<or> (best_slot_table best \<noteq> None \<and> best_m ?b = best_m best)
               \<or> best_slot_table ?b = None"
        by auto
      show ?thesis
      proof (cases "best_score ?b = bps")
        case True
        then have "best' = ?b" using Cons.prems(1) Inr Some r by (simp add: Let_def)
        then show ?thesis using b Cons.prems(2) by auto
      next
        case False
        then have "try_primes cs bps m ps ?b = Inr (Inl best') \<or> try_primes cs bps m ps ?b = Inr (Inr best')"
          using Cons.prems(1) Inr Some r by (simp add: Let_def)
        from Cons.IH [OF this Cons.prems(2)] show ?thesis by (auto split: if_splits)
      qed
    qed
  qed
qed

lemma unat_byte_succ: "unat (x :: byte) < 255 \<Longrightarrow> unat (x + 1) = unat x + 1"
  by (simp add: unat_word_ariths)

lemma find_hash_loop_best_m:
  "best_slot_table best = None \<or> lo \<le> unat (best_m best) \<Longrightarrow> lo \<le> unat (n + 1) \<Longrightarrow>
   find_hash_loop cs bps n best = Inr best' \<Longrightarrow> best_slot_table best' \<noteq> None \<Longrightarrow>
   lo \<le> unat (best_m best')"
proof (induction cs bps n best rule: find_hash_loop.induct)
  case (1 cs bps n best)
  show ?case
  proof (cases "try_primes cs bps (n + 1) primes best")
    case (Inl f)
    then show ?thesis using "1.prems"(3) by (subst (asm) find_hash_loop.simps) (simp add: Let_def)
  next
    case (Inr r)
    show ?thesis
    proof (cases r)
      case (Inl b)
      then have t: "try_primes cs bps (n + 1) primes best = Inr (Inl b)" using Inr by simp
      then have res: "best' = b"
        using "1.prems"(3) by (subst (asm) find_hash_loop.simps) (simp add: Let_def)
      then have "best_slot_table b \<noteq> None" using "1.prems"(4) by simp
      then have "best_m b = n + 1 \<or> (best_slot_table best \<noteq> None \<and> best_m b = best_m best)"
        using try_primes_best_m [of cs bps "n + 1" primes best b] t by simp
      then show ?thesis using "1.prems"(1,2) res by auto
    next
      case right: (Inr b)
      then have t: "try_primes cs bps (n + 1) primes best = Inr (Inr b)" using Inr by simp
      have step: "best_slot_table b \<noteq> None \<Longrightarrow>
                  best_m b = n + 1 \<or> (best_slot_table best \<noteq> None \<and> best_m b = best_m best)"
        using try_primes_best_m [of cs bps "n + 1" primes best b] t by simp
      have b: "best_slot_table b = None \<or> lo \<le> unat (best_m b)"
      proof (cases "best_slot_table b = None")
        case True
        then show ?thesis by simp
      next
        case False
        then have "best_m b = n + 1 \<or> (best_slot_table best \<noteq> None \<and> best_m b = best_m best)"
          by (rule step)
        then show ?thesis using "1.prems"(1,2) by auto
      qed
      show ?thesis
      proof (cases "n + 1 < 255")
        case True
        then have res: "find_hash_loop cs bps (n + 1) b = Inr best'"
          using "1.prems"(3) t by (subst (asm) find_hash_loop.simps) (simp add: Let_def)
        have "unat (n + 1) < 255" using True by (simp add: word_less_nat_alt)
        then have "unat (n + 1 + 1) = unat (n + 1) + 1" by (rule unat_byte_succ)
        then have lo: "lo \<le> unat (n + 1 + 1)" using "1.prems"(2) by simp
        show ?thesis
          using "1.IH" [OF refl Inr right True b lo res "1.prems"(4)] .
      next
        case False
        then have res: "best' = b"
          using "1.prems"(3) t by (subst (asm) find_hash_loop.simps) (simp add: Let_def)
        then show ?thesis using b "1.prems"(4) by auto
      qed
    qed
  qed
qed

lemma find_best_hash_starts_above:
  assumes "find_best_hash cs bps u = Inr node"
  shows "u mod 256 \<le> unat (node_num_slots node)"
proof -
  let ?init = "\<lparr>best_score = length cs + 1, best_a = 0, best_m = 0, best_slot_table = None\<rparr>"
  obtain b where b: "find_hash_loop cs bps (of_nat u - 1) ?init = Inr b"
    using assms by (auto simp: find_best_hash_def split: sum.splits)
  have some: "best_slot_table b \<noteq> None"
    using assms b by (auto simp: find_best_hash_def split: option.splits)
  have "unat (of_nat u - 1 + 1 :: byte) = u mod 256" by (simp add: unat_of_nat)
  then have "u mod 256 \<le> unat (best_m b)"
    using find_hash_loop_best_m [of ?init "u mod 256" "of_nat u - 1" cs bps b] b some by simp
  moreover have "node_num_slots node = best_m b"
    using assms b by (auto simp: find_best_hash_def split: option.splits)
  ultimately show ?thesis by simp
qed

section \<open>The single-column builder\<close>

lemma last_payload_None: "last_payload es b = None \<longleftrightarrow> b \<notin> fst ` set es"
  by (induction es) (auto split: option.splits)

lemma node_sel_set_slot [simp]:
  "node_prime (set_slot node i s) = node_prime node"
  "node_num_slots (set_slot node i s) = node_num_slots node"
  "node_slot (set_slot node i s) = (node_slot node)[i := s]"
  by (simp_all add: set_slot_def)

lemma set_payloads_spec:
  assumes "node_prime node = a" and "node_num_slots node = m"
    and "inj_on (\<lambda>c. hash_function c a m) S"
    and "length (node_slot node) = Suc (unat m)"
    and "\<forall>c \<in> S. slot_character (node_slot node ! unat (hash_function c a m)) = c
                \<and> slot_count (node_slot node ! unat (hash_function c a m)) = 1"
    and "fst ` set es \<subseteq> S"
  shows "\<exists>node'. set_payloads es node = Inr node' \<and> payloads_set a m S es node node'"
  using assms
proof (induction es arbitrary: node)
  case Nil
  then show ?case by (simp add: payloads_set_def)
next
  case (Cons entry es)
  let ?h = "\<lambda>c. unat (hash_function c a m)"
  let ?c = "fst entry" and ?p = "snd entry"
  let ?s = "node_slot node ! ?h ?c"
  let ?node1 = "set_slot node (?h ?c) (HashSlot (slot_character ?s) (slot_count ?s) (slot_next_node ?s) ?p)"
  have hlt: "\<And>c. ?h c < length (node_slot node)"
    using hash_function_le [of _ a m] Cons.prems(4) by (simp add: less_Suc_eq_le)
  have cS: "?c \<in> S" using Cons.prems(6) by simp
  then have sc: "slot_character ?s = ?c" "slot_count ?s = 1" using Cons.prems(5) by simp_all
  have step: "set_payloads (entry # es) node = set_payloads es ?node1"
    using hlt [of ?c] sc Cons.prems(1,2) by (simp add: Let_def)
  have heq: "(?h b = ?h ?c) = (b = ?c)" if "b \<in> S" for b
  proof
    assume "?h b = ?h ?c"
    then have "hash_function b a m = hash_function ?c a m" by (simp only: word_unat_eq_iff)
    then show "b = ?c" using Cons.prems(3) that cS by (meson inj_onD)
  qed simp
  have p1: "node_prime ?node1 = a" and p2: "node_num_slots ?node1 = m"
    using Cons.prems(1,2) by simp_all
  have p4: "length (node_slot ?node1) = Suc (unat m)" using Cons.prems(4) by simp
  have p5: "\<forall>c \<in> S. slot_character (node_slot ?node1 ! ?h c) = c
                \<and> slot_count (node_slot ?node1 ! ?h c) = 1"
  proof
    fix c assume "c \<in> S"
    then show "slot_character (node_slot ?node1 ! ?h c) = c \<and> slot_count (node_slot ?node1 ! ?h c) = 1"
      using Cons.prems(5) hlt [of c] hlt [of ?c] sc heq [of c]
      by (cases "?h c = ?h ?c") simp_all
  qed
  have p6: "fst ` set es \<subseteq> S" using Cons.prems(6) by simp
  obtain node' where n: "set_payloads es ?node1 = Inr node'"
    and ps: "payloads_set a m S es ?node1 node'"
    using Cons.IH [OF p1 p2 Cons.prems(3) p4 p5 p6] by blast
  have len: "length (node_slot node') = length (node_slot node)"
    using ps by (simp add: payloads_set_def)
  have same: "slot_character (node_slot node' ! j) = slot_character (node_slot node ! j)
                 \<and> slot_count (node_slot node' ! j) = slot_count (node_slot node ! j)
                 \<and> slot_next_node (node_slot node' ! j) = slot_next_node (node_slot node ! j)"
    if j: "j < length (node_slot node)" for j
  proof -
    have "slot_character (node_slot node' ! j) = slot_character (node_slot ?node1 ! j)
                 \<and> slot_count (node_slot node' ! j) = slot_count (node_slot ?node1 ! j)
                 \<and> slot_next_node (node_slot node' ! j) = slot_next_node (node_slot ?node1 ! j)"
      using ps j by (simp add: payloads_set_def)
    then show ?thesis using j by (cases "j = ?h ?c") simp_all
  qed
  have pay: "slot_payload (node_slot node' ! ?h b)
                 = (case last_payload (entry # es) b of
                      Some p \<Rightarrow> p
                    | None \<Rightarrow> slot_payload (node_slot node ! ?h b))"
    if b: "b \<in> S" for b
  proof -
    have eq: "slot_payload (node_slot node' ! ?h b)
                 = (case last_payload es b of
                      Some p \<Rightarrow> p
                    | None \<Rightarrow> slot_payload (node_slot ?node1 ! ?h b))"
      using ps b by (simp add: payloads_set_def)
    show ?thesis
    proof (cases "last_payload es b")
      case (Some q)
      then show ?thesis using eq by simp
    next
      case None
      show ?thesis
      proof (cases "b = ?c")
        case True
        then show ?thesis using eq None hlt [of ?c] by simp
      next
        case False
        then have "?h b \<noteq> ?h ?c" using heq [OF b] by simp
        then show ?thesis using eq None False by simp
      qed
    qed
  qed
  have "payloads_set a m S (entry # es) node node'"
    unfolding payloads_set_def using ps len same pay by (simp add: payloads_set_def)
  then show ?case using step n by simp
qed

lemma node_sel_clear_counts [simp]:
  "node_prime (clear_counts node) = node_prime node"
  "node_num_slots (clear_counts node) = node_num_slots node"
  "length (node_slot (clear_counts node)) = length (node_slot node)"
  by (simp_all add: clear_counts_def)

lemma clear_counts_nth:
  assumes "j < length (node_slot node)"
  shows "slot_character (node_slot (clear_counts node) ! j) = slot_character (node_slot node ! j)"
    and "slot_next_node (node_slot (clear_counts node) ! j) = slot_next_node (node_slot node ! j)"
    and "slot_count (node_slot (clear_counts node) ! j)
         = (if slot_count (node_slot node ! j) > 1 then 1 else slot_count (node_slot node ! j))"
  using assms by (simp_all add: clear_counts_def)

text \<open>
  C9. For every byte array of at most \<open>INT_MAX\<close> bytes with parallel payloads (the
  search of \<open>find_best_hash\<close> indexes and counts the bytes in \<open>int\<close>),
  \<open>create_character_hash\<close> returns a node, none of whose slots points to a child node
  or anything else; duplicate bytes are no error. \<open>lookup_character\<close> finds exactly
  the bytes of the input, each with the payload of its last occurrence in input order.
\<close>

theorem create_character_hash_lookup:
  assumes "int (length entries) \<le> INT_MAX"
  shows "\<exists>node. create_character_hash entries = Inr node
          \<and> list_all (\<lambda>s. slot_next_node s = NullPtr) (node_slot node)
          \<and> (\<forall>b. lookup_character b node = Inr (last_payload entries b))"
proof -
  define cs where "cs = map fst entries"
  let ?bps = "snd (calculate_character_distribution cs)"
  let ?u = "fst (calculate_character_distribution cs)"
  have "\<forall>c. count_list cs c \<le> ?bps" by (simp add: distribution_snd_upper)
  moreover have "?bps \<le> length cs" by (rule distribution_snd_le_length)
  moreover have "int (length cs) \<le> INT_MAX" using assms by (simp add: cs_def)
  ultimately obtain node0 where node0: "find_best_hash cs ?bps ?u = Inr node0"
    using find_best_hash_total by blast
  note f = find_best_hash_slots [OF node0]
  define a where "a = node_prime node0"
  define m where "m = node_num_slots node0"
  note a_m_def = a_def m_def
  let ?node1 = "clear_counts node0"
  let ?h = "\<lambda>c. unat (hash_function c a m)"
  have hlt: "\<And>c. ?h c < length (node_slot node0)"
    using hash_function_le [of _ a m] f(1) by (simp add: less_Suc_eq_le a_m_def)
  have a1: "node_prime ?node1 = a" and a2: "node_num_slots ?node1 = m" by (simp_all add: a_m_def)
  have a3: "inj_on (\<lambda>c. hash_function c a m) (set cs)" using f(2) by (simp add: a_m_def)
  have a4: "length (node_slot ?node1) = Suc (unat m)" using f(1) by (simp add: a_m_def)
  have a5: "\<forall>c \<in> set cs. slot_character (node_slot ?node1 ! ?h c) = c
                        \<and> slot_count (node_slot ?node1 ! ?h c) = 1"
  proof
    fix c assume c: "c \<in> set cs"
    then have "0 < count_list cs c" by (simp add: count_list_pos)
    moreover have "slot_character (node_slot node0 ! ?h c) = c
                   \<and> slot_count (node_slot node0 ! ?h c) = count_list cs c"
      using f(3) [OF c] by (simp add: a_m_def)
    ultimately show "slot_character (node_slot ?node1 ! ?h c) = c \<and> slot_count (node_slot ?node1 ! ?h c) = 1"
      using hlt [of c] by (simp add: clear_counts_nth)
  qed
  have a6: "fst ` set entries \<subseteq> set cs" by (simp add: cs_def)
  obtain node where n: "set_payloads entries ?node1 = Inr node"
    and ps: "payloads_set a m (set cs) entries ?node1 node"
    using set_payloads_spec [OF a1 a2 a3 a4 a5 a6] by blast
  have keep: "node_prime node = a" "node_num_slots node = m"
    "length (node_slot node) = length (node_slot node0)"
    using ps by (simp_all add: payloads_set_def)
  have same: "slot_character (node_slot node ! j) = slot_character (node_slot node0 ! j)"
    "slot_next_node (node_slot node ! j) = slot_next_node (node_slot node0 ! j)"
    "slot_count (node_slot node ! j)
       = (if slot_count (node_slot node0 ! j) > 1 then 1 else slot_count (node_slot node0 ! j))"
    if "j < length (node_slot node0)" for j
    using ps that by (simp_all add: payloads_set_def clear_counts_nth)
  have created: "create_character_hash entries = Inr node"
    using node0 n by (simp add: create_character_hash_def case_prod_beta cs_def)
  have nulls: "list_all (\<lambda>s. slot_next_node s = NullPtr) (node_slot node)"
    unfolding list_all_length
  proof (intro allI impI)
    fix j assume "j < length (node_slot node)"
    then have j: "j < length (node_slot node0)" using keep by simp
    then show "slot_next_node (node_slot node ! j) = NullPtr"
      using same(2) [OF j] f(5) [OF j] by simp
  qed
  have look: "lookup_character b node = Inr (last_payload entries b)" for b
  proof (cases "b \<in> set cs")
    case True
    then obtain p where p: "last_payload entries b = Some p"
      using last_payload_None [of entries b] by (cases "last_payload entries b") (auto simp: cs_def)
    have "slot_character (node_slot ?node1 ! ?h b) = b" "slot_count (node_slot ?node1 ! ?h b) = 1"
      using a5 True by simp_all
    then have "slot_character (node_slot node ! ?h b) = b" "slot_count (node_slot node ! ?h b) = 1"
      using ps hlt [of b] by (simp_all add: payloads_set_def)
    moreover have "slot_payload (node_slot node ! ?h b) = p"
      using ps True p by (simp add: payloads_set_def)
    ultimately show ?thesis using hlt [of b] keep p by (simp add: lookup_character_def Let_def)
  next
    case False
    then have none: "last_payload entries b = None"
      using last_payload_None [of entries b] by (simp add: cs_def)
    have "\<not> (slot_count (node_slot node ! ?h b) > 0 \<and> slot_character (node_slot node ! ?h b) = b)"
    proof
      assume pos: "slot_count (node_slot node ! ?h b) > 0 \<and> slot_character (node_slot node ! ?h b) = b"
      then have "slot_count (node_slot node0 ! ?h b) > 0"
        using same(3) [OF hlt [of b]] by (simp split: if_splits)
      then have "slot_character (node_slot node0 ! ?h b) \<in> set cs" using f(4) [OF hlt [of b]] by simp
      moreover have "slot_character (node_slot node0 ! ?h b) = b"
        using pos same(1) [OF hlt [of b]] by simp
      ultimately show False using False by simp
    qed
    then show ?thesis using hlt [of b] keep none by (simp add: lookup_character_def Let_def)
  qed
  show ?thesis using created nulls look by blast
qed

theorem create_character_hash_lookup_witness:
  "int (length [(97 :: byte, 1 :: Payload), (98, 2), (97, 3)]) \<le> INT_MAX
   \<and> (\<exists>node. create_character_hash [(97, 1), (98, 2), (97, 3)] = Inr node
          \<and> list_all (\<lambda>s. slot_next_node s = NullPtr) (node_slot node)
          \<and> lookup_character 97 node = Inr (Some 3)
          \<and> lookup_character 98 node = Inr (Some 2)
          \<and> lookup_character 99 node = Inr None)"
proof -
  let ?es = "[(97 :: byte, 1 :: Payload), (98, 2), (97, 3)]"
  have len: "int (length ?es) \<le> INT_MAX" by (simp add: INT_MAX_def)
  from create_character_hash_lookup [OF len] obtain node
    where n: "create_character_hash ?es = Inr node"
      and z: "list_all (\<lambda>s. slot_next_node s = NullPtr) (node_slot node)"
      and l: "\<And>b. lookup_character b node = Inr (last_payload ?es b)"
    by blast
  have "lookup_character 97 node = Inr (Some 3)" "lookup_character 98 node = Inr (Some 2)"
    "lookup_character 99 node = Inr None"
    unfolding l by simp_all
  then show ?thesis using len n z by blast
qed

section \<open>Facts about slot population\<close>

lemma column_bytes_key_byte: "column_bytes col vs = map (key_byte col) vs"
  by (simp add: column_bytes_def key_byte_def)

lemma find_binary_Cons:
  "find_binary col ch ((v, p) # rest)
     = (if key_byte col v = ch then Some (v, p) else find_binary col ch rest)"
  by (auto simp: Let_def key_byte_def)

lemma find_binary_Some:
  "find_binary col ch es = Some (v, p) \<Longrightarrow> (v, p) \<in> set es \<and> key_byte col v = ch"
proof (induction es)
  case Nil
  then show ?case by simp
next
  case (Cons e es)
  obtain w q where e: "e = (w, q)" by (cases e)
  show ?case using Cons unfolding e find_binary_Cons by (auto split: if_splits)
qed

lemma find_binary_exists:
  "ch \<in> set (column_bytes col (map fst es)) \<Longrightarrow> find_binary col ch es \<noteq> None"
proof (induction es)
  case Nil
  then show ?case by (simp add: column_bytes_key_byte)
next
  case (Cons e es)
  obtain w q where e: "e = (w, q)" by (cases e)
  show ?case using Cons unfolding e find_binary_Cons by (auto simp: column_bytes_key_byte)
qed

lemma find_binary_unique:
  assumes "count_list (column_bytes col (map fst es)) ch = 1"
    and "(k, p) \<in> set es" and "key_byte col k = ch"
  shows "find_binary col ch es = Some (k, p)"
  using assms
proof (induction es)
  case Nil
  then show ?case by simp
next
  case (Cons e es)
  obtain v q where e: "e = (v, q)" by (cases e)
  show ?case
  proof (cases "key_byte col v = ch")
    case True
    then have "count_list (column_bytes col (map fst es)) ch = 0"
      using Cons.prems(1) e by (simp add: column_bytes_key_byte)
    then have "ch \<notin> set (column_bytes col (map fst es))" by (simp add: count_list_0_iff)
    then have "(k, p) \<notin> set es" using Cons.prems(3) by (force simp: column_bytes_key_byte)
    then have "(k, p) = (v, q)" using Cons.prems(2) e by simp
    then show ?thesis using True unfolding e find_binary_Cons by simp
  next
    case False
    then have "count_list (column_bytes col (map fst es)) ch = 1" "(k, p) \<in> set es"
      using Cons.prems e by (auto simp: column_bytes_key_byte)
    then have "find_binary col ch es = Some (k, p)" using Cons.IH Cons.prems(3) by simp
    then show ?thesis using False unfolding e find_binary_Cons by simp
  qed
qed

text \<open>
  Within the key the unchecked read gives the byte of the column; a gathered group is
  the sublist of the entries whose unchecked read gives the slot's character.
\<close>

lemma read_byte_within: "col < length (binary v) \<Longrightarrow> read_byte v col = Inr (key_byte col v)"
  by (simp add: read_byte_def key_byte_def nth_append)

lemma gather_Inr:
  "gather col ch es = Inr grouped \<Longrightarrow>
     grouped = filter (\<lambda>e. read_byte (fst e) col = Inr ch) es"
proof (induction es arbitrary: grouped)
  case Nil
  then show ?case by simp
next
  case (Cons x es)
  obtain w q where x: "x = (w, q)" by (cases x)
  show ?case using Cons unfolding x by (auto split: if_splits sum.splits)
qed

lemma length_filter_key_byte:
  "length (filter (\<lambda>e. key_byte col (fst e) = ch) es) = count_list (column_bytes col (map fst es)) ch"
  by (induction es) (auto simp: column_bytes_key_byte)

text \<open>
  A group that fits the arrays allocated for it holds only keys that show the slot's
  character at the column under the virtual rule: a key read beyond its length can be
  missing from the group of the virtual byte, but an intruder in another group would
  make that group larger than its count.
\<close>

lemma gather_padded:
  assumes g: "gather col ch es = Inr grouped"
    and fits: "length grouped \<le> count_list (column_bytes col (map fst es)) ch"
    and e: "e \<in> set grouped"
  shows "key_byte col (fst e) = ch"
proof (cases "ch = 0")
  case True
  have r: "read_byte (fst e) col = Inr ch" using e gather_Inr [OF g] by simp
  show ?thesis
  proof (cases "col < length (binary (fst e))")
    case within: True
    then show ?thesis using r by (simp add: read_byte_within)
  next
    case False
    then show ?thesis using True by (simp add: key_byte_def)
  qed
next
  case False
  let ?P = "\<lambda>e. key_byte col (fst e) = ch"
  let ?R = "\<lambda>e. read_byte (fst e) col = Inr ch"
  have grouped: "grouped = filter ?R es" using g by (rule gather_Inr)
  have imp: "?P x \<Longrightarrow> ?R x" for x
  proof -
    assume p: "?P x"
    then have "col < length (binary (fst x))" using False by (auto simp: key_byte_def split: if_splits)
    then show "?R x" using p by (simp add: read_byte_within)
  qed
  have "filter ?P grouped = filter (\<lambda>x. ?R x \<and> ?P x) es"
    unfolding grouped by (simp add: conj_commute)
  also have "\<dots> = filter ?P es" using imp by (intro filter_cong) auto
  finally have "length (filter ?P grouped) = count_list (column_bytes col (map fst es)) ch"
    by (simp add: length_filter_key_byte)
  then have ge: "length grouped \<le> length (filter ?P grouped)" using fits by simp
  show ?thesis
  proof (rule ccontr)
    assume "\<not> ?P e"
    then have "length (filter ?P grouped) < length grouped" using e by (intro length_filter_less)
    then show False using ge by simp
  qed
qed

lemma gather_subset: "gather col ch es = Inr grouped \<Longrightarrow> set grouped \<subseteq> set es"
  using gather_Inr [of col ch es grouped] by auto

lemma compare_binaries_eq: "compare_binaries x y \<longleftrightarrow> binary x = binary y"
  by (auto simp: compare_binaries_def)

lemma populate_slots_Some:
  assumes "populate_slots f vs idxs node h = Inr (Some node', h')" and "distinct idxs"
  shows "node_column node' = node_column node \<and> node_prime node' = node_prime node
         \<and> node_num_slots node' = node_num_slots node
         \<and> length (node_slot node') = length (node_slot node)
         \<and> (\<forall>i < length (node_slot node). i \<notin> set idxs \<longrightarrow> node_slot node' ! i = node_slot node ! i)
         \<and> (\<forall>i \<in> set idxs. i < length (node_slot node)
               \<and> slot_built f vs (node_column node) (node_slot node ! i) (node_slot node' ! i))"
  using assms
proof (induction idxs arbitrary: node h)
  case Nil
  then show ?case by simp
next
  case (Cons i idxs)
  have i: "i < length (node_slot node)"
    using Cons.prems(1) by (simp split: if_splits)
  have d: "distinct idxs" "i \<notin> set idxs" using Cons.prems(2) by simp_all
  let ?s = "node_slot node ! i"
  have ex: "\<exists>s1 h1. populate_slots f vs idxs (set_slot node i s1) h1 = Inr (Some node', h')
                   \<and> slot_built f vs (node_column node) ?s s1"
  proof (cases "slot_count ?s = 0")
    case True
    then show ?thesis using Cons.prems(1) i
      by (intro exI [of _ "HashSlot (slot_character ?s) (slot_count ?s) NullPtr (slot_payload ?s)"] exI [of _ h])
         (simp add: Let_def slot_built_def)
  next
    case nz: False
    show ?thesis
    proof (cases "slot_count ?s = 1")
      case True
      then obtain v p where fb: "find_binary (node_column node) (slot_character ?s) vs = Some (v, p)"
        using Cons.prems(1) i by (auto simp: Let_def split: option.splits)
      then show ?thesis using Cons.prems(1) i True
        by (intro exI [of _ "HashSlot (slot_character ?s) (slot_count ?s) (Binary v) p"]
              exI [of _ "malloc_binary h"])
           (simp add: Let_def slot_built_def)
    next
      case no: False
      obtain grouped where g: "gather (node_column node) (slot_character ?s) vs = Inr grouped"
        using Cons.prems(1) i nz no by (auto simp: Let_def split: sum.splits)
      have len: "length grouped \<le> slot_count ?s"
        using Cons.prems(1) i nz no g by (auto simp: Let_def split: if_splits)
      obtain child hy where c: "f grouped (malloc_buffer (malloc_buffer h)) = Inr (Some child, hy)"
        using Cons.prems(1) i nz no g len
        by (auto simp: Let_def split: sum.splits option.splits prod.splits)
      show ?thesis using Cons.prems(1) i nz no g len c
        by (intro exI [of _ "HashSlot (slot_character ?s) (slot_count ?s) (Child child) (slot_payload ?s)"]
              exI [of _ "free_buffer hy"])
           (auto simp: Let_def slot_built_def)
    qed
  qed
  then obtain s1 h1 where rest: "populate_slots f vs idxs (set_slot node i s1) h1 = Inr (Some node', h')"
    and built: "slot_built f vs (node_column node) ?s s1" by blast
  note ih = Cons.IH [OF rest d(1)]
  have other: "node_slot (set_slot node i s1) ! j = node_slot node ! j" if "j \<noteq> i" for j
    using that by simp
  show ?case
  proof (intro conjI allI impI ballI)
    show "node_column node' = node_column node" using ih by simp
    show "node_prime node' = node_prime node" using ih by simp
    show "node_num_slots node' = node_num_slots node" using ih by simp
    show "length (node_slot node') = length (node_slot node)" using ih by simp
  next
    fix j assume "j < length (node_slot node)" "j \<notin> set (i # idxs)"
    then show "node_slot node' ! j = node_slot node ! j" using ih by simp
  next
    fix j assume j: "j \<in> set (i # idxs)"
    show "j < length (node_slot node)" using j i ih by auto
    show "slot_built f vs (node_column node) (node_slot node ! j) (node_slot node' ! j)"
    proof (cases "j = i")
      case True
      have "node_slot node' ! i = node_slot (set_slot node i s1) ! i" using ih i d(2) by simp
      then show ?thesis using True built i by simp
    next
      case False
      then have jin: "j \<in> set idxs" using j by simp
      have "slot_built f vs (node_column (set_slot node i s1)) (node_slot (set_slot node i s1) ! j)
              (node_slot node' ! j)"
        using ih jin by blast
      then show ?thesis using other [OF False] by (simp del: node_sel_set_slot)
    qed
  qed
qed

section \<open>The outcomes of create_binary_hash\<close>

lemma node_sel_set_column [simp]:
  "node_column (set_column node c) = c"
  "node_prime (set_column node c) = node_prime node"
  "node_num_slots (set_column node c) = node_num_slots node"
  by (simp_all add: set_column_def)

lemma best_node_length:
  "best_node best = Inr node0 \<Longrightarrow> length (node_slot node0) = Suc (unat (node_num_slots node0))"
  unfolding best_node_def by (rule find_best_hash_slots(1))

lemma create_binary_hash_unfold:
  assumes "entries \<noteq> []" and "column_survey entries = Inr best"
    and "\<not> duplicate_signal best entries" and "best_node best = Inr node0"
  shows "create_binary_hash entries h =
           (case populate_slots create_binary_hash entries [0..<Suc (unat (node_num_slots node0))]
                   (set_column node0 (best_column best))
                   (malloc_node (free_buffer (malloc_buffer (malloc_buffer h)))) of
              Inl f \<Rightarrow> Inl f
            | Inr (None, h3) \<Rightarrow> Inr (None, h3)
            | Inr (Some root, h3) \<Rightarrow> Inr (Some root, free_buffer h3))"
proof -
  have n: "\<not> length entries < 1" using assms(1) by (cases entries) simp_all
  show ?thesis
    using n assms(2,3,4)
    by (subst create_binary_hash.simps)
       (auto simp add: Let_def duplicate_signal_def best_node_def simp del: upt_Suc)
qed

text \<open>
  A build that returns a tree has surveyed the columns, passed the duplicate test, got a
  node for the best column and passed every slot of it.
\<close>

lemma create_binary_hash_Some:
  assumes "create_binary_hash entries h = Inr (Some root, h')"
  shows "\<exists>best node0. entries \<noteq> [] \<and> column_survey entries = Inr best
           \<and> \<not> duplicate_signal best entries \<and> best_node best = Inr node0
           \<and> node_column root = best_column best
           \<and> node_prime root = node_prime node0 \<and> node_num_slots root = node_num_slots node0
           \<and> length (node_slot root) = length (node_slot node0)
           \<and> (\<forall>i < length (node_slot node0).
                 slot_built create_binary_hash entries (best_column best)
                   (node_slot node0 ! i) (node_slot root ! i))"
proof -
  have ne: "entries \<noteq> []"
    using assms by (subst (asm) create_binary_hash.simps) (auto split: if_splits)
  then have n: "\<not> length entries < 1" by (cases entries) simp_all
  obtain best where best: "column_survey entries = Inr best"
    using assms n
    by (subst (asm) create_binary_hash.simps) (auto simp: Let_def split: sum.splits)
  have nd: "\<not> duplicate_signal best entries"
    using assms n best
    by (subst (asm) create_binary_hash.simps) (auto simp: Let_def duplicate_signal_def split: if_splits)
  obtain node0 where node0: "best_node best = Inr node0"
    using assms n best nd
    by (subst (asm) create_binary_hash.simps)
       (auto simp: Let_def duplicate_signal_def best_node_def split: sum.splits)
  let ?col = "best_column best"
  let ?idxs = "[0..<Suc (unat (node_num_slots node0))]"
  let ?node = "set_column node0 ?col"
  obtain h3 where p: "populate_slots create_binary_hash entries ?idxs ?node
                        (malloc_node (free_buffer (malloc_buffer (malloc_buffer h)))) = Inr (Some root, h3)"
    using assms unfolding create_binary_hash_unfold [OF ne best nd node0]
    by (auto split: sum.splits option.splits prod.splits)
  note r = populate_slots_Some [OF p distinct_upt]
  have len: "length (node_slot node0) = Suc (unat (node_num_slots node0))"
    using node0 by (rule best_node_length)
  have "\<forall>i < length (node_slot node0).
          slot_built create_binary_hash entries ?col (node_slot node0 ! i) (node_slot root ! i)"
  proof (intro allI impI)
    fix i assume "i < length (node_slot node0)"
    then have "i \<in> set ?idxs" using len by (simp del: upt_Suc)
    then have "slot_built create_binary_hash entries (node_column ?node) (node_slot ?node ! i) (node_slot root ! i)"
      using r by blast
    then show "slot_built create_binary_hash entries ?col (node_slot node0 ! i) (node_slot root ! i)"
      by simp
  qed
  then show ?thesis using ne best nd node0 r by auto
qed

lemma best_node_slot_of_key:
  assumes best: "column_survey entries = Inr best"
    and node0: "best_node best = Inr node0" and e: "e \<in> set entries"
  shows "slot_character (node_slot node0 ! unat (hash_function
             (key_byte (best_column best) (fst e)) (node_prime node0) (node_num_slots node0)))
           = key_byte (best_column best) (fst e)"
    and "slot_count (node_slot node0 ! unat (hash_function
             (key_byte (best_column best) (fst e)) (node_prime node0) (node_num_slots node0)))
           = count_list (column_bytes (best_column best) (map fst entries))
               (key_byte (best_column best) (fst e))"
    and "0 < count_list (column_bytes (best_column best) (map fst entries))
               (key_byte (best_column best) (fst e))"
proof -
  let ?col = "best_column best"
  let ?cs = "best_column_chars best"
  have cs: "?cs = column_bytes ?col (map fst entries)" using best by (rule column_survey_chars)
  have "key_byte ?col (fst e) \<in> set ?cs"
    using e unfolding cs column_bytes_key_byte by simp
  then show "slot_character (node_slot node0 ! unat (hash_function
             (key_byte ?col (fst e)) (node_prime node0) (node_num_slots node0)))
           = key_byte ?col (fst e)"
    and "slot_count (node_slot node0 ! unat (hash_function
             (key_byte ?col (fst e)) (node_prime node0) (node_num_slots node0)))
           = count_list (column_bytes ?col (map fst entries)) (key_byte ?col (fst e))"
    and "0 < count_list (column_bytes ?col (map fst entries)) (key_byte ?col (fst e))"
    using find_best_hash_slots(3) [OF node0 [unfolded best_node_def]]
    unfolding cs by (simp_all add: count_list_pos)
qed

lemma best_node_slot_count:
  assumes "column_survey entries = Inr best" and "best_node best = Inr node0"
    and "i < length (node_slot node0)" and "slot_count (node_slot node0 ! i) \<noteq> 0"
  shows "slot_count (node_slot node0 ! i)
           = count_list (column_bytes (best_column best) (map fst entries))
               (slot_character (node_slot node0 ! i))"
  using find_best_hash_slots(4) [OF assms(2) [unfolded best_node_def] assms(3)] assms(4)
  by (simp add: column_survey_chars [OF assms(1)])

text \<open>
  The group of a slot, as far as it fits its arrays: it is a part of the entries, every
  key of it shows the slot's character at the column, it is shorter than the list of
  entries, and the keys of the entries do not all show the same byte at the column.
\<close>

lemma group_facts:
  assumes best: "column_survey entries = Inr best"
    and node0: "best_node best = Inr node0" and nd: "\<not> duplicate_signal best entries"
    and i: "i < length (node_slot node0)"
    and c: "slot_count (node_slot node0 ! i) \<noteq> 0" "slot_count (node_slot node0 ! i) \<noteq> 1"
    and g: "gather (best_column best) (slot_character (node_slot node0 ! i)) entries = Inr grouped"
    and fits: "length grouped \<le> slot_count (node_slot node0 ! i)"
  shows "set grouped \<subseteq> set entries"
    and "\<forall>e \<in> set grouped. key_byte (best_column best) (fst e) = slot_character (node_slot node0 ! i)"
    and "length grouped < length entries"
    and "1 < card (set (column_bytes (best_column best) (map fst entries)))"
proof -
  let ?col = "best_column best"
  let ?ch = "slot_character (node_slot node0 ! i)"
  let ?cs = "column_bytes ?col (map fst entries)"
  show "set grouped \<subseteq> set entries" using g by (rule gather_subset)
  have cnt: "slot_count (node_slot node0 ! i) = count_list ?cs ?ch"
    by (rule best_node_slot_count [OF best node0 i c(1)])
  show "\<forall>e \<in> set grouped. key_byte ?col (fst e) = ?ch"
    using gather_padded [OF g] fits cnt by simp
  have "node_slot node0 ! i \<in> set (node_slot node0)" using i by simp
  then have lt: "slot_count (node_slot node0 ! i) < length entries"
    using group_smaller [OF best, of node0 "node_slot node0 ! i"] nd node0 c
    by (simp add: duplicate_signal_def best_node_def)
  then show "length grouped < length entries" using fits by simp
  have "1 < length entries" using lt c by arith
  then have "best_unique_chars best \<noteq> 1" using nd by (simp add: duplicate_signal_def)
  then have "card (set ?cs) \<noteq> 1"
    by (simp add: column_survey_unique [OF best] column_survey_chars [OF best])
  moreover have "entries \<noteq> []" using lt by auto
  then have "set ?cs \<noteq> {}" by (simp add: column_bytes_key_byte)
  then have "card (set ?cs) \<noteq> 0" by simp
  ultimately show "1 < card (set ?cs)" by arith
qed

section \<open>Distinct keys that the build rejects\<close>

text \<open>
  C1, at the keys \<open>""\<close> and \<open>"\\0"\<close> (one zero byte). They are distinct: their lengths
  differ, and \<open>compare_binaries\<close> tells them apart. Every column reads the same byte for
  both, so the survey finds one distinct byte in its best column and the build returns
  \<open>NULL\<close>, the duplicate signal.
\<close>

theorem trailing_zero_keys_rejected:
  "binary (BinaryValue [] []) \<noteq> binary (BinaryValue [0] [])
   \<and> \<not> compare_binaries (BinaryValue [] []) (BinaryValue [0] [])
   \<and> create_binary_hash [(BinaryValue [] [], 1), (BinaryValue [0] [], 2)]
         \<lparr>live_nodes = 0, live_binaries = 0, live_buffers = 0\<rparr>
       = Inr (None, \<lparr>live_nodes = 0, live_binaries = 0, live_buffers = 1\<rparr>)"
  by code_simp

section \<open>The group gathering\<close>

text \<open>
  C4, at the keys \<open>""\<close>, \<open>"a"\<close>, \<open>"ab"\<close>, each a buffer of exactly its length. Column
  0 is chosen and the byte \<open>a\<close> has count 2; gathering its group reads byte 0 of every
  key with no length check, the empty key included. The search of a singleton slot, on
  the same keys and column, applies the virtual rule.
\<close>

theorem gather_reads_beyond_short_key:
  "gather 0 97 [(BinaryValue [] [], 1), (BinaryValue [97] [], 2), (BinaryValue [97, 98] [], 3)]
     = Inl OutOfBounds
   \<and> find_binary 0 0 [(BinaryValue [] [], 1), (BinaryValue [97] [], 2), (BinaryValue [97, 98] [], 3)]
     = Some (BinaryValue [] [], 1)
   \<and> create_binary_hash
         [(BinaryValue [] [], 1), (BinaryValue [97] [], 2), (BinaryValue [97, 98] [], 3)]
         \<lparr>live_nodes = 0, live_binaries = 0, live_buffers = 0\<rparr>
       = Inl OutOfBounds"
  by code_simp

text \<open>
  Where bytes can be read after a key, the gathering compares the byte it finds there
  and not the virtual \<open>0x00\<close>. At the keys \<open>""\<close> (followed in memory by a byte 9),
  \<open>"\\0\\1"\<close> and \<open>"\\7"\<close> the root splits on column 0 and the byte 0 has count 2 (the
  empty key by the virtual rule, and \<open>"\\0\\1"\<close>); the gathering reads 9 for the empty
  key and leaves it out of the group. The build returns a tree in which the empty key is
  not found.
\<close>

lemma gather_drops_short_key:
  "gather 0 0 [(BinaryValue [] [9], 1), (BinaryValue [0, 1] [], 2), (BinaryValue [7] [], 3)]
     = Inr [(BinaryValue [0, 1] [], 2)]
   \<and> create_binary_hash
         [(BinaryValue [] [9], 1), (BinaryValue [0, 1] [], 2), (BinaryValue [7] [], 3)]
         \<lparr>live_nodes = 0, live_binaries = 0, live_buffers = 0\<rparr>
       = Inr (Some (HashNode 0 2 2
                      [HashSlot 7 1 (Binary (BinaryValue [7] [])) 3,
                       HashSlot 0 0 NullPtr 0,
                       HashSlot 0 2 (Child (HashNode 0 2 1
                           [HashSlot 0 1 (Binary (BinaryValue [0, 1] [])) 2,
                            HashSlot 0 0 NullPtr 0])) 0]),
              \<lparr>live_nodes = 2, live_binaries = 2, live_buffers = 1\<rparr>)
   \<and> lookup_binary (BinaryValue [] [9])
         (HashNode 0 2 2
            [HashSlot 7 1 (Binary (BinaryValue [7] [])) 3,
             HashSlot 0 0 NullPtr 0,
             HashSlot 0 2 (Child (HashNode 0 2 1
                 [HashSlot 0 1 (Binary (BinaryValue [0, 1] [])) 2,
                  HashSlot 0 0 NullPtr 0])) 0])
       = Inr None"
  by code_simp

section \<open>Empty and duplicate input\<close>

text \<open>
  C10. With no keys the build returns \<open>NULL\<close> at once, and it returns \<open>NULL\<close> as well
  for a key given twice: the two cases give the caller the same value. (The key is
  shorter than \<open>INT_MAX\<close> bytes, so that the column counter of the survey, an \<open>int\<close>,
  does not overflow.)
\<close>

theorem empty_input_returns_null:
  assumes "int (length (binary k)) < INT_MAX"
  shows "create_binary_hash [] h = Inr (None, h)
   \<and> (\<exists>h'. create_binary_hash [(k, p), (k, q)] h = Inr (None, h'))"
proof
  show "create_binary_hash [] h = Inr (None, h)"
    by (subst create_binary_hash.simps) simp
next
  have "int (max_length (map fst [(k, p), (k, q)])) < INT_MAX" using assms by simp
  then obtain best where best: "column_survey [(k, p), (k, q)] = Inr best"
    using column_survey_total by blast
  obtain x where "best_column_chars best = [x, x]"
    by (simp add: column_survey_chars [OF best] column_bytes_def)
  then have "best_unique_chars best = 1"
    by (simp add: column_survey_unique [OF best])
  then show "\<exists>h'. create_binary_hash [(k, p), (k, q)] h = Inr (None, h')"
    using best by (subst create_binary_hash.simps) (simp add: Let_def)
qed

theorem empty_input_returns_null_witness:
  "int (length (binary (BinaryValue [97, 98] [0]))) < INT_MAX
   \<and> create_binary_hash [] \<lparr>live_nodes = 0, live_binaries = 0, live_buffers = 0\<rparr>
       = Inr (None, \<lparr>live_nodes = 0, live_binaries = 0, live_buffers = 0\<rparr>)
   \<and> (\<exists>h'. create_binary_hash [(BinaryValue [97, 98] [0], 1), (BinaryValue [97, 98] [0], 2)]
               \<lparr>live_nodes = 0, live_binaries = 0, live_buffers = 0\<rparr> = Inr (None, h'))"
proof -
  have len: "int (length (binary (BinaryValue [97, 98] [0]))) < INT_MAX"
    by (simp add: INT_MAX_def)
  from len empty_input_returns_null [OF len] show ?thesis by (rule conjI)
qed

text \<open>
  C2, at the keys \<open>"bx"\<close>, \<open>"by"\<close>, \<open>"az"\<close>, \<open>"az"\<close> on an empty heap. The root splits
  on column 0; the group of \<open>b\<close> is built first (one node, two leaf copies), then the
  group of \<open>a\<close> comes back \<open>NULL\<close>. The build returns \<open>NULL\<close>, and the child node of
  the first group and its two leaf copies are still allocated.
\<close>

theorem duplicate_leaves_sibling_subtree:
  "create_binary_hash
     [(BinaryValue [98, 120] [], 1), (BinaryValue [98, 121] [], 2),
      (BinaryValue [97, 122] [], 3), (BinaryValue [97, 122] [], 4)]
     \<lparr>live_nodes = 0, live_binaries = 0, live_buffers = 0\<rparr>
   = Inr (None, \<lparr>live_nodes = 1, live_binaries = 2, live_buffers = 3\<rparr>)"
  by code_simp

section \<open>The depth of a built tree\<close>

lemma varying_le: "varying vs \<le> max_length vs"
proof -
  have "{c. c < max_length vs \<and> 1 < card (set (column_bytes c vs))} \<subseteq> {..<max_length vs}" by auto
  then have "varying vs \<le> card {..<max_length vs}"
    unfolding varying_def by (intro card_mono) simp_all
  then show ?thesis by simp
qed

lemma max_length_mono: "set g \<subseteq> set vs \<Longrightarrow> max_length g \<le> max_length vs"
proof (induction g)
  case Nil
  then show ?case by simp
next
  case (Cons v g)
  then show ?case using max_length_ge [of v vs] by simp
qed

lemma column_bytes_beyond: "max_length vs \<le> c \<Longrightarrow> column_bytes c vs = replicate (length vs) 0"
proof (induction vs)
  case Nil
  then show ?case by (simp add: column_bytes_def)
next
  case (Cons v vs)
  then show ?case by (simp add: column_bytes_def)
qed

text \<open>
  A column on which the keys differ lies within the longest key, and it no longer
  varies in a group whose keys all show the same byte there.
\<close>

lemma varying_group:
  assumes var: "1 < card (set (column_bytes col vs))"
    and sub: "set g \<subseteq> set vs"
    and same: "\<forall>v \<in> set g. key_byte col v = ch"
  shows "varying g < varying vs"
proof -
  let ?A = "{c. c < max_length g \<and> 1 < card (set (column_bytes c g))}"
  let ?B = "{c. c < max_length vs \<and> 1 < card (set (column_bytes c vs))}"
  have finB: "finite ?B" by simp
  have "col < max_length vs"
  proof (rule ccontr)
    assume "\<not> col < max_length vs"
    then have "column_bytes col vs = replicate (length vs) 0" by (simp add: column_bytes_beyond)
    then have "set (column_bytes col vs) \<subseteq> {0}" by auto
    then have "card (set (column_bytes col vs)) \<le> card {0 :: byte}" by (intro card_mono) simp_all
    then show False using var by simp
  qed
  then have colB: "col \<in> ?B" using var by simp
  have "set (column_bytes col g) \<subseteq> {ch}" using same by (auto simp: column_bytes_key_byte)
  then have "card (set (column_bytes col g)) \<le> card {ch}" by (intro card_mono) simp_all
  then have colA: "col \<notin> ?A" by simp
  have "?A \<subseteq> ?B"
  proof
    fix c assume c: "c \<in> ?A"
    then have "c < max_length vs" using max_length_mono [OF sub] by simp
    moreover have "set (column_bytes c g) \<subseteq> set (column_bytes c vs)"
      using sub by (auto simp: column_bytes_key_byte)
    then have "card (set (column_bytes c g)) \<le> card (set (column_bytes c vs))"
      by (intro card_mono) simp_all
    then have "1 < card (set (column_bytes c vs))" using c by simp
    ultimately show "c \<in> ?B" by simp
  qed
  then have "?A \<subset> ?B" using colA colB by blast
  then have "card ?A < card ?B" using finB by (intro psubset_card_mono)
  then show ?thesis by (simp add: varying_def)
qed

lemma slots_depth_le:
  "(\<And>s child. s \<in> set ss \<Longrightarrow> slot_next_node s = Child child \<Longrightarrow> tree_depth child \<le> d)
   \<Longrightarrow> slots_depth ss \<le> d"
proof (induction ss)
  case Nil
  then show ?case by simp
next
  case (Cons s ss)
  obtain ch cnt nxt p where s: "s = HashSlot ch cnt nxt p" by (cases s)
  have rest: "slots_depth ss \<le> d"
  proof (rule Cons.IH)
    fix s' child assume "s' \<in> set ss" "slot_next_node s' = Child child"
    then show "tree_depth child \<le> d" using Cons.prems [of s' child] by simp
  qed
  have "(case nxt of Child child \<Rightarrow> tree_depth child | _ \<Rightarrow> 0) \<le> d"
    using Cons.prems [of s] s by (cases nxt) simp_all
  then show ?case using rest s by simp
qed

lemma tree_depth_node: "tree_depth node = Suc (slots_depth (node_slot node))"
  by (cases node) simp

text \<open>
  Every node of a built tree splits on a column on which its keys differ, and the keys
  of a child agree on the columns of all its ancestors.
\<close>

lemma depth_built:
  "create_binary_hash entries h = Inr (Some root, h') \<Longrightarrow>
     tree_depth root \<le> varying (map fst entries) + 1"
proof (induction "length entries" arbitrary: entries h root h' rule: less_induct)
  case less
  obtain best node0 where best: "column_survey entries = Inr best"
    and nd: "\<not> duplicate_signal best entries"
    and node0: "best_node best = Inr node0"
    and len: "length (node_slot root) = length (node_slot node0)"
    and built: "\<forall>i < length (node_slot node0).
                  slot_built create_binary_hash entries (best_column best)
                    (node_slot node0 ! i) (node_slot root ! i)"
    using create_binary_hash_Some [OF less.prems] by blast
  let ?col = "best_column best"
  have "slots_depth (node_slot root) \<le> varying (map fst entries)"
  proof (rule slots_depth_le)
    fix s child assume "s \<in> set (node_slot root)" and nx: "slot_next_node s = Child child"
    then obtain i where i: "i < length (node_slot node0)" and s: "s = node_slot root ! i"
      using len by (auto simp: in_set_conv_nth)
    have sb: "slot_built create_binary_hash entries ?col (node_slot node0 ! i) s"
      using built i s by simp
    have c: "slot_count (node_slot node0 ! i) \<noteq> 0" "slot_count (node_slot node0 ! i) \<noteq> 1"
      using sb nx unfolding slot_built_def by (auto split: if_splits)
    then obtain grouped hx hy
      where g: "gather ?col (slot_character (node_slot node0 ! i)) entries = Inr grouped"
        and fits: "length grouped \<le> slot_count (node_slot node0 ! i)"
        and b: "create_binary_hash grouped hx = Inr (Some child, hy)"
      using sb nx unfolding slot_built_def by auto
    note gf = group_facts [OF best node0 nd i c g fits]
    have "tree_depth child \<le> varying (map fst grouped) + 1"
      using less.hyps [OF gf(3) b] .
    moreover have "varying (map fst grouped) < varying (map fst entries)"
    proof (rule varying_group [OF gf(4)])
      show "set (map fst grouped) \<subseteq> set (map fst entries)" using gf(1) by auto
      show "\<forall>v \<in> set (map fst grouped). key_byte ?col v = slot_character (node_slot node0 ! i)"
        using gf(2) by auto
    qed
    ultimately show "tree_depth child \<le> varying (map fst entries)" by simp
  qed
  then show ?case by (simp add: tree_depth_node)
qed

text \<open>
  C7. Whenever construction succeeds, the depth of the tree (the longest chain of nodes
  from the root along child pointers) is at most the maximum key length plus one. This
  holds whatever can be read after the keys: the builds in which the gathering reads a
  key beyond its length are included.
\<close>

theorem tree_depth_bound:
  assumes "create_binary_hash entries h = Inr (Some root, h')"
  shows "tree_depth root \<le> max_length (map fst entries) + 1"
  using depth_built [OF assms] varying_le [of "map fst entries"] by simp

text \<open>
  The prefix family \<open>"AB"\<close>, \<open>"ABC"\<close>, \<open>"ABCD"\<close>, \<open>"ABCDE"\<close>, \<open>"ABCDEF"\<close> of
  \<open>acph_tests.c\<close>, each string in a zeroed buffer of 8 bytes. The root splits on column
  3, which \<open>"AB"\<close> and \<open>"ABC"\<close> do not reach: both groups of the root are gathered by
  reading those two keys beyond their length. The tree has depth 3, the longest key 6
  bytes.
\<close>

theorem tree_depth_bound_witness:
  "create_binary_hash
     [(BinaryValue [65, 66] [0, 0, 0, 0, 0, 0], 0),
      (BinaryValue [65, 66, 67] [0, 0, 0, 0, 0], 1),
      (BinaryValue [65, 66, 67, 68] [0, 0, 0, 0], 2),
      (BinaryValue [65, 66, 67, 68, 69] [0, 0, 0], 3),
      (BinaryValue [65, 66, 67, 68, 69, 70] [0, 0], 4)]
     \<lparr>live_nodes = 0, live_binaries = 0, live_buffers = 0\<rparr>
   = Inr (Some (HashNode 3 2 2
        [HashSlot 68 3 (Child (HashNode 4 2 2
            [HashSlot 0 0 NullPtr 0,
             HashSlot 69 2 (Child (HashNode 5 2 2
                 [HashSlot 0 0 NullPtr 0,
                  HashSlot 70 1 (Binary (BinaryValue [65, 66, 67, 68, 69, 70] [0, 0])) 4,
                  HashSlot 0 1 (Binary (BinaryValue [65, 66, 67, 68, 69] [0, 0, 0])) 3])) 0,
             HashSlot 0 1 (Binary (BinaryValue [65, 66, 67, 68] [0, 0, 0, 0])) 2])) 0,
         HashSlot 0 0 NullPtr 0,
         HashSlot 0 2 (Child (HashNode 2 2 2
            [HashSlot 67 1 (Binary (BinaryValue [65, 66, 67] [0, 0, 0, 0, 0])) 1,
             HashSlot 0 0 NullPtr 0,
             HashSlot 0 1 (Binary (BinaryValue [65, 66] [0, 0, 0, 0, 0, 0])) 0])) 0]),
          \<lparr>live_nodes = 4, live_binaries = 5, live_buffers = 3\<rparr>)
   \<and> tree_depth (HashNode 3 2 2
        [HashSlot 68 3 (Child (HashNode 4 2 2
            [HashSlot 0 0 NullPtr 0,
             HashSlot 69 2 (Child (HashNode 5 2 2
                 [HashSlot 0 0 NullPtr 0,
                  HashSlot 70 1 (Binary (BinaryValue [65, 66, 67, 68, 69, 70] [0, 0])) 4,
                  HashSlot 0 1 (Binary (BinaryValue [65, 66, 67, 68, 69] [0, 0, 0])) 3])) 0,
             HashSlot 0 1 (Binary (BinaryValue [65, 66, 67, 68] [0, 0, 0, 0])) 2])) 0,
         HashSlot 0 0 NullPtr 0,
         HashSlot 0 2 (Child (HashNode 2 2 2
            [HashSlot 67 1 (Binary (BinaryValue [65, 66, 67] [0, 0, 0, 0, 0])) 1,
             HashSlot 0 0 NullPtr 0,
             HashSlot 0 1 (Binary (BinaryValue [65, 66] [0, 0, 0, 0, 0, 0])) 0])) 0])
       \<le> max_length (map fst
             ([(BinaryValue [65, 66] [0, 0, 0, 0, 0, 0], 0),
      (BinaryValue [65, 66, 67] [0, 0, 0, 0, 0], 1),
      (BinaryValue [65, 66, 67, 68] [0, 0, 0, 0], 2),
      (BinaryValue [65, 66, 67, 68, 69] [0, 0, 0], 3),
      (BinaryValue [65, 66, 67, 68, 69, 70] [0, 0], 4)] :: entries)) + 1"
proof -
  let ?es = "[(BinaryValue [65, 66] [0, 0, 0, 0, 0, 0], 0),
      (BinaryValue [65, 66, 67] [0, 0, 0, 0, 0], 1),
      (BinaryValue [65, 66, 67, 68] [0, 0, 0, 0], 2),
      (BinaryValue [65, 66, 67, 68, 69] [0, 0, 0], 3),
      (BinaryValue [65, 66, 67, 68, 69, 70] [0, 0], 4)] :: entries"
  let ?h = "\<lparr>live_nodes = 0, live_binaries = 0, live_buffers = 0\<rparr>"
  let ?t = "HashNode 3 2 2
        [HashSlot 68 3 (Child (HashNode 4 2 2
            [HashSlot 0 0 NullPtr 0,
             HashSlot 69 2 (Child (HashNode 5 2 2
                 [HashSlot 0 0 NullPtr 0,
                  HashSlot 70 1 (Binary (BinaryValue [65, 66, 67, 68, 69, 70] [0, 0])) 4,
                  HashSlot 0 1 (Binary (BinaryValue [65, 66, 67, 68, 69] [0, 0, 0])) 3])) 0,
             HashSlot 0 1 (Binary (BinaryValue [65, 66, 67, 68] [0, 0, 0, 0])) 2])) 0,
         HashSlot 0 0 NullPtr 0,
         HashSlot 0 2 (Child (HashNode 2 2 2
            [HashSlot 67 1 (Binary (BinaryValue [65, 66, 67] [0, 0, 0, 0, 0])) 1,
             HashSlot 0 0 NullPtr 0,
             HashSlot 0 1 (Binary (BinaryValue [65, 66] [0, 0, 0, 0, 0, 0])) 0])) 0]"
  have b: "create_binary_hash ?es ?h
             = Inr (Some ?t, \<lparr>live_nodes = 4, live_binaries = 5, live_buffers = 3\<rparr>)"
    by code_simp
  from tree_depth_bound [OF b] b show ?thesis by simp
qed

section \<open>The efficiency diagnostic\<close>

text \<open>
  C8, at the tree of the single empty key. The root has one leaf slot and one empty
  slot. \<open>hash_efficiency\<close> reports \<open>slots_used = 2\<close> (it counts every slot, the empty
  one too) and the percentage is \<open>2 * 100 div 3 = 66\<close>, where the occupied slots are 1
  of 2.
\<close>

theorem hash_efficiency_counts_empty_slots:
  "create_binary_hash [(BinaryValue [] [], 42)] \<lparr>live_nodes = 0, live_binaries = 0, live_buffers = 0\<rparr>
     = Inr (Some (HashNode 0 2 1 [HashSlot 0 1 (Binary (BinaryValue [] [])) 42, HashSlot 0 0 NullPtr 0]),
            \<lparr>live_nodes = 1, live_binaries = 1, live_buffers = 0\<rparr>)
   \<and> hash_efficiency (HashNode 0 2 1 [HashSlot 0 1 (Binary (BinaryValue [] [])) 42, HashSlot 0 0 NullPtr 0])
       = Inr (2, 1, 1)
   \<and> occupied_slots (HashNode 0 2 1 [HashSlot 0 1 (Binary (BinaryValue [] [])) 42, HashSlot 0 0 NullPtr 0]) = 1
   \<and> vacant_slots (HashNode 0 2 1 [HashSlot 0 1 (Binary (BinaryValue [] [])) 42, HashSlot 0 0 NullPtr 0]) = 1
   \<and> hash_table_efficiency (HashNode 0 2 1 [HashSlot 0 1 (Binary (BinaryValue [] [])) 42, HashSlot 0 0 NullPtr 0])
       = Inr (66, 1)"
  by code_simp

text \<open>
  What \<open>hash_efficiency\<close> reports for a built tree: \<open>slots_used\<close> is the number of all
  slots, occupied and empty; \<open>empty_slots\<close> and \<open>max_comparisons\<close> are the number of
  empty slots and the depth.
\<close>

lemma efficiency_slots_measured:
  "(\<And>s. s \<in> set ss \<Longrightarrow> slot_measured s) \<Longrightarrow>
   efficiency_slots ss mx ts te
     = Inr (max mx (slots_depth ss), ts + occupied_in ss + vacant_in ss, te + vacant_in ss)"
proof (induction ss arbitrary: mx ts te)
  case Nil
  then show ?case by simp
next
  case (Cons s ss)
  obtain ch cnt nxt p where s: "s = HashSlot ch cnt nxt p" by (cases s)
  have m: "slot_measured (HashSlot ch cnt nxt p)" using Cons.prems [of s] s by simp
  have ih: "efficiency_slots ss mx' ts' te'
     = Inr (max mx' (slots_depth ss), ts' + occupied_in ss + vacant_in ss, te' + vacant_in ss)"
    for mx' ts' te'
    using Cons.IH [of mx' ts' te'] Cons.prems by simp
  consider "cnt = 0" | "cnt = 1" | "cnt \<noteq> 0" "cnt \<noteq> 1" by blast
  then show ?case
  proof cases
    case 1
    then have "(case nxt of Child child \<Rightarrow> tree_depth child | _ \<Rightarrow> 0) = 0"
      "(case nxt of Child child \<Rightarrow> occupied_slots child | _ \<Rightarrow> 0) = 0"
      "(case nxt of Child child \<Rightarrow> vacant_slots child | _ \<Rightarrow> 0) = 0"
      using m by (cases nxt; simp add: slot_measured_def)+
    then show ?thesis using 1 s ih by simp
  next
    case 2
    then have "(case nxt of Child child \<Rightarrow> tree_depth child | _ \<Rightarrow> 0) = 0"
      "(case nxt of Child child \<Rightarrow> occupied_slots child | _ \<Rightarrow> 0) = 0"
      "(case nxt of Child child \<Rightarrow> vacant_slots child | _ \<Rightarrow> 0) = 0"
      using m by (cases nxt; simp add: slot_measured_def)+
    then show ?thesis using 2 s ih by simp
  next
    case 3
    then obtain child where nx: "nxt = Child child"
      and e: "hash_efficiency child
                = Inr (occupied_slots child + vacant_slots child, vacant_slots child, tree_depth child)"
      using m by (auto simp: slot_measured_def)
    show ?thesis using 3 s nx e ih by (simp add: max_def)
  qed
qed

lemma hash_efficiency_measured:
  assumes "\<And>s. s \<in> set (node_slot node) \<Longrightarrow> slot_measured s"
  shows "hash_efficiency node
           = Inr (occupied_slots node + vacant_slots node, vacant_slots node, tree_depth node)"
proof -
  obtain col a m slots where n: "node = HashNode col a m slots" by (cases node)
  have "efficiency_slots slots 0 0 0
          = Inr (max 0 (slots_depth slots), 0 + occupied_in slots + vacant_in slots, 0 + vacant_in slots)"
    using assms n by (intro efficiency_slots_measured) simp
  then show ?thesis using n by simp
qed

lemma hash_efficiency_built:
  "create_binary_hash entries h = Inr (Some root, h') \<Longrightarrow>
     hash_efficiency root
       = Inr (occupied_slots root + vacant_slots root, vacant_slots root, tree_depth root)"
proof (induction "length entries" arbitrary: entries h root h' rule: less_induct)
  case less
  obtain best node0 where best: "column_survey entries = Inr best"
    and nd: "\<not> duplicate_signal best entries"
    and node0: "best_node best = Inr node0"
    and len: "length (node_slot root) = length (node_slot node0)"
    and built: "\<forall>i < length (node_slot node0).
                  slot_built create_binary_hash entries (best_column best)
                    (node_slot node0 ! i) (node_slot root ! i)"
    using create_binary_hash_Some [OF less.prems] by blast
  let ?col = "best_column best"
  show ?case
  proof (rule hash_efficiency_measured)
    fix s assume "s \<in> set (node_slot root)"
    then obtain i where i: "i < length (node_slot node0)" and s: "s = node_slot root ! i"
      using len by (auto simp: in_set_conv_nth)
    have sb: "slot_built create_binary_hash entries ?col (node_slot node0 ! i) s"
      using built i s by simp
    then have cnt: "slot_count s = slot_count (node_slot node0 ! i)" by (simp add: slot_built_def)
    show "slot_measured s"
    proof (cases "slot_count s = 0 \<or> slot_count s = 1")
      case True
      then have "\<forall>child. slot_next_node s \<noteq> Child child"
        using sb cnt unfolding slot_built_def by (auto split: if_splits)
      then show ?thesis using True by (simp add: slot_measured_def)
    next
      case False
      then have c: "slot_count (node_slot node0 ! i) \<noteq> 0" "slot_count (node_slot node0 ! i) \<noteq> 1"
        using cnt by simp_all
      then obtain grouped child hx hy
        where g: "gather ?col (slot_character (node_slot node0 ! i)) entries = Inr grouped"
          and fits: "length grouped \<le> slot_count (node_slot node0 ! i)"
          and b: "create_binary_hash grouped hx = Inr (Some child, hy)"
          and nx: "slot_next_node s = Child child"
        using sb unfolding slot_built_def by auto
      note gf = group_facts [OF best node0 nd i c g fits]
      have "hash_efficiency child
              = Inr (occupied_slots child + vacant_slots child, vacant_slots child, tree_depth child)"
        using less.hyps [OF gf(3) b] .
      then show ?thesis using False nx by (simp add: slot_measured_def)
    qed
  qed
qed

end
